theory Spec2Isabelle
  imports Main "HOL-Library.Word" "HOL-Library.Char_ord" "HOL-Library.Monad_Syntax"
begin

unbundle bit_operations_syntax

section \<open>The chunk parser of lichess-tv (chunk.c, chunk.h)\<close>

text \<open>
  The parser works on one mutable byte buffer \<^verbatim>\<open>char *buf\<close> of \<^verbatim>\<open>len\<close> bytes and a
  cursor \<^verbatim>\<open>size_t off\<close>. The buffer is a \<open>string\<close> (a list of bytes) whose length is
  \<^verbatim>\<open>len\<close>; a function that writes to the buffer returns the new buffer, and a function
  that takes \<^verbatim>\<open>size_t *poff\<close> returns the new cursor. A \<^verbatim>\<open>char *\<close> that the parser stores
  is the offset of its target in the buffer, \<open>None\<close> for the null pointer.
\<close>

subsection \<open>Data\<close>

type_synonym buffer = string

type_synonym cptr = "nat option"

datatype json_type =
  JSON_ERROR | JSON_STRING | JSON_NUMBER | JSON_COMMA | JSON_COLON |
  JSON_OBEG | JSON_OEND | JSON_ABEG | JSON_AEND | JSON_FALSE | JSON_TRUE

text \<open>\<^verbatim>\<open>struct token { size_t off, len; enum {...} type; }\<close>\<close>

record token =
  tok_off :: nat
  tok_len :: nat
  tok_type :: json_type

datatype symbol =
  SYM_d | SYM_t | SYM_featured | SYM_user | SYM_rating | SYM_black | SYM_color |
  SYM_fen | SYM_white | SYM_players | SYM_name | SYM_UNKNOWN

text \<open>\<^verbatim>\<open>struct chunk\<close> of chunk.h; \<^verbatim>\<open>players[2]\<close> is indexed by 0 and 1.\<close>

datatype chunk_type = CHUNK_UNKNOWN | CHUNK_FEATURED | CHUNK_FEN

record player =
  name :: cptr
  rating :: cptr

record chunk =
  fen :: cptr
  players :: "nat \<Rightarrow> player"
  type :: chunk_type

text \<open>
  What a reader of a \<^verbatim>\<open>char *\<close> field sees (\<^verbatim>\<open>printw("%s", players[0].name)\<close> in gfx.c):
  the bytes from the offset up to the first null byte.
\<close>

definition c_string :: "buffer \<Rightarrow> nat \<Rightarrow> string" where
  "c_string buf p = takeWhile (\<lambda>ch. ch \<noteq> CHR 0x00) (drop p buf)"

subsection \<open>parse_symbol\<close>

text \<open>
  \<^verbatim>\<open>static const char s[49]\<close> and \<^verbatim>\<open>lut[16]\<close>; the five entries of \<open>lut\<close> without an
  initialiser are zero.
\<close>

definition sym_chars :: string where
  "sym_chars = ''dtfeatureduserratingblackcolorfenwhiteplayersname''"

definition lut :: "(nat \<times> nat) list" where
  "lut = [(0, 1), (1, 1), (2, 8), (10, 4), (14, 6), (20, 5),
          (25, 5), (30, 3), (33, 5), (38, 7), (45, 4),
          (0, 0), (0, 0), (0, 0), (0, 0), (0, 0)]"

text \<open>
  \<^verbatim>\<open>(unsigned)tmp[k]\<close>: whether \<^verbatim>\<open>char\<close> is signed is the compiler's choice, so the
  conversion takes it as a parameter (\<open>True\<close>: signed, the byte is sign-extended).
\<close>

definition char_to_unsigned :: "bool \<Rightarrow> char \<Rightarrow> 32 word" where
  "char_to_unsigned sc ch =
     (if sc then scast (of_char ch :: 8 word) else ucast (of_char ch :: 8 word))"

text \<open>\<^verbatim>\<open>char tmp[4] = {0}; memcpy(tmp, tok, len>4 ? 4 : len);\<close>\<close>

definition sym_tmp :: "string \<Rightarrow> string" where
  "sym_tmp tok = take 4 tok @ replicate (4 - length tok) (CHR 0x00)"

definition sym_hash :: "bool \<Rightarrow> string \<Rightarrow> 32 word" where
  "sym_hash sc tok =
     (let tmp = sym_tmp tok in
        push_bit 24 (char_to_unsigned sc (tmp ! 3)) OR
        push_bit 16 (char_to_unsigned sc (tmp ! 2)) OR
        push_bit 8 (char_to_unsigned sc (tmp ! 1)) OR
        push_bit 0 (char_to_unsigned sc (tmp ! 0)))"

text \<open>\<^verbatim>\<open>int i = (h*2367153u)>>28 & 15;\<close>\<close>

definition sym_index :: "bool \<Rightarrow> string \<Rightarrow> nat" where
  "sym_index sc tok = unat (drop_bit 28 (sym_hash sc tok * 2367153) AND 15)"

text \<open>
  \<^verbatim>\<open>return i;\<close> converts the index to \<^verbatim>\<open>enum symbol\<close>. The enumerators are numbered
  0 to 11 in the order of their declaration. An index from 12 to 15 is no enumerator; it is
  mapped to \<open>SYM_UNKNOWN\<close> here, and \<open>parse_symbol_accepts_only_names\<close> below shows that
  \<^verbatim>\<open>return i\<close> is only reached with an index below 11.
\<close>

definition symbol_of_index :: "nat \<Rightarrow> symbol" where
  "symbol_of_index i =
     (if i < 11 then
        [SYM_d, SYM_t, SYM_featured, SYM_user, SYM_rating, SYM_black, SYM_color,
         SYM_fen, SYM_white, SYM_players, SYM_name] ! i
      else SYM_UNKNOWN)"

text \<open>
  \<^verbatim>\<open>lut[i].len == len && !memcmp(s+lut[i].off, tok, len)\<close>; the span \<open>tok\<close> stands for
  the \<^verbatim>\<open>len\<close> bytes at \<^verbatim>\<open>tok\<close>.
\<close>

definition lut_match :: "nat \<Rightarrow> string \<Rightarrow> bool" where
  "lut_match i tok =
     (case lut ! i of (loff, llen) \<Rightarrow>
        llen = length tok \<and> take (length tok) (drop loff sym_chars) = tok)"

definition parse_symbol_with :: "bool \<Rightarrow> string \<Rightarrow> symbol" where
  "parse_symbol_with sc tok =
     (let i = sym_index sc tok in
        if lut_match i tok then symbol_of_index i else SYM_UNKNOWN)"

text \<open>The build (gcc or clang on x86) has a signed \<^verbatim>\<open>char\<close>.\<close>

definition parse_symbol :: "string \<Rightarrow> symbol" where
  "parse_symbol tok = parse_symbol_with True tok"

subsection \<open>The tokenizer\<close>

function skip_whitespace :: "buffer \<Rightarrow> nat \<Rightarrow> nat" where
  "skip_whitespace buf off =
     (if off < length buf then
        (if buf ! off = CHR 0x09 \<or> buf ! off = CHR 0x0A \<or> buf ! off = CHR 0x0D \<or>
            buf ! off = CHR '' ''
         then skip_whitespace buf (off + 1)
         else off)
      else off)"
  by pat_completeness auto
termination
  by (relation "measure (\<lambda>(buf, off). length buf - off)") auto

declare skip_whitespace.simps [simp del]

function skip_until :: "buffer \<Rightarrow> nat \<Rightarrow> char \<Rightarrow> nat" where
  "skip_until buf off byte =
     (if off < length buf then
        (if buf ! off = byte then off else skip_until buf (off + 1) byte)
      else off)"
  by pat_completeness auto
termination
  by (relation "measure (\<lambda>(buf, off, byte). length buf - off)") auto

declare skip_until.simps [simp del]

text \<open>\<^verbatim>\<open>return off==len ? -1 : buf[off];\<close> with \<open>None\<close> for -1.\<close>

definition peek :: "buffer \<Rightarrow> nat \<Rightarrow> char option" where
  "peek buf off = (if off = length buf then None else Some (buf ! off))"

definition is_digit :: "char \<Rightarrow> bool" where
  "is_digit ch = (CHR ''0'' \<le> ch \<and> ch \<le> CHR ''9'')"

text \<open>The digit loop of \<^verbatim>\<open>json_next\<close>:
  \<^verbatim>\<open>while (off < len && buf[off] >= '0' && buf[off] <= '9') off++;\<close>\<close>

function scan_digits :: "buffer \<Rightarrow> nat \<Rightarrow> nat" where
  "scan_digits buf off =
     (if off < length buf \<and> is_digit (buf ! off) then scan_digits buf (off + 1) else off)"
  by pat_completeness auto
termination
  by (relation "measure (\<lambda>(buf, off). length buf - off)") auto

declare scan_digits.simps [simp del]

text \<open>A one-byte token: \<^verbatim>\<open>t.off = off; t.len = 1; t.type = ty; *poff = off + 1;\<close>\<close>

definition punct :: "json_type \<Rightarrow> buffer \<Rightarrow> nat \<Rightarrow> token \<times> buffer \<times> nat" where
  "punct ty buf off = (\<lparr>tok_off = off, tok_len = 1, tok_type = ty\<rparr>, buf, off + 1)"

text \<open>
  \<^verbatim>\<open>json_next(buf, len, poff)\<close> returns the token, the buffer (a string token overwrites
  its closing quote) and the new \<^verbatim>\<open>*poff\<close>.
\<close>

definition json_next :: "buffer \<Rightarrow> nat \<Rightarrow> token \<times> buffer \<times> nat" where
  "json_next buf poff =
     (let len = length buf;
          t = \<lparr>tok_off = len, tok_len = 0, tok_type = JSON_ERROR\<rparr>;
          off = skip_whitespace buf poff
      in case peek buf off of
           None \<Rightarrow> (t, buf, off)
         | Some ch \<Rightarrow>
             if ch = CHR ''{'' then punct JSON_OBEG buf off
             else if ch = CHR ''}'' then punct JSON_OEND buf off
             else if ch = CHR ''['' then punct JSON_ABEG buf off
             else if ch = CHR '']'' then punct JSON_AEND buf off
             else if ch = CHR 0x22 then
               (let start = off + 1;
                    off = skip_until buf (off + 1) (CHR 0x22);
                    t = t\<lparr>tok_off := start, tok_len := off - start\<rparr>
                in if off = len then (t, buf, off)
                   else (t\<lparr>tok_type := JSON_STRING\<rparr>, buf[off := CHR 0x00], off + 1))
             else if ch = CHR '','' then punct JSON_COMMA buf off
             else if is_digit ch then
               (let start = off;
                    off = scan_digits buf off
                in (\<lparr>tok_off = start, tok_len = off - start, tok_type = JSON_NUMBER\<rparr>,
                    buf, off))
             else if ch = CHR '':'' then punct JSON_COLON buf off
             else if ch = CHR ''f'' then
               (if len - off \<ge> 5 \<and> take 5 (drop off buf) = ''false''
                then (\<lparr>tok_off = off, tok_len = 5, tok_type = JSON_FALSE\<rparr>, buf, off + 5)
                else (t, buf, len))
             else if ch = CHR ''t'' then
               (if len - off \<ge> 4 \<and> take 4 (drop off buf) = ''true''
                then (\<lparr>tok_off = off, tok_len = 4, tok_type = JSON_TRUE\<rparr>, buf, off + 4)
                else (t, buf, len))
             else (t, buf, off))"

subsection \<open>Keys and values\<close>

text \<open>
  Each function returns its C result, the buffer and the cursor \<^verbatim>\<open>*poff\<close>.
  \<^verbatim>\<open>parse_symbol(buf+t.off, t.len)\<close> reads the span of the token in the buffer.
\<close>

definition span :: "buffer \<Rightarrow> token \<Rightarrow> string" where
  "span buf t = take (tok_len t) (drop (tok_off t) buf)"

definition parse_key :: "buffer \<Rightarrow> nat \<Rightarrow> symbol \<times> buffer \<times> nat" where
  "parse_key buf off =
     (case json_next buf off of (t, buf, off) \<Rightarrow>
        if tok_type t \<noteq> JSON_STRING then (SYM_UNKNOWN, buf, length buf)
        else (case json_next buf off of (t2, buf, off) \<Rightarrow>
          if tok_type t2 \<noteq> JSON_COLON then (SYM_UNKNOWN, buf, length buf)
          else (parse_symbol (span buf t), buf, off)))"

definition parse_string :: "buffer \<Rightarrow> nat \<Rightarrow> cptr \<times> buffer \<times> nat" where
  "parse_string buf off =
     (case json_next buf off of (t, buf, off) \<Rightarrow>
        if tok_type t \<noteq> JSON_STRING then (None, buf, length buf)
        else (Some (tok_off t), buf, off))"

definition parse_number :: "buffer \<Rightarrow> nat \<Rightarrow> cptr \<times> buffer \<times> nat" where
  "parse_number buf off =
     (case json_next buf off of (t, buf, off) \<Rightarrow>
        if tok_type t \<noteq> JSON_NUMBER then (None, buf, length buf)
        else (Some (tok_off t), buf, off))"

definition parse_enum :: "buffer \<Rightarrow> nat \<Rightarrow> symbol \<times> buffer \<times> nat" where
  "parse_enum buf off =
     (case json_next buf off of (t, buf, off) \<Rightarrow>
        if tok_type t \<noteq> JSON_STRING then (SYM_UNKNOWN, buf, length buf)
        else (parse_symbol (span buf t), buf, off))"

definition scalar_type :: "json_type \<Rightarrow> bool" where
  "scalar_type ty =
     (ty = JSON_FALSE \<or> ty = JSON_TRUE \<or> ty = JSON_STRING \<or> ty = JSON_NUMBER)"

definition skip_value :: "buffer \<Rightarrow> nat \<Rightarrow> buffer \<times> nat" where
  "skip_value buf off =
     (case json_next buf off of (t, buf, off) \<Rightarrow>
        if scalar_type (tok_type t) then (buf, off) else (buf, length buf))"

text \<open>
  \<^verbatim>\<open>terminate_number\<close>: the loop \<^verbatim>\<open>while (*p >= '0' && *p <= '9') p++;\<close> has no bound.
  \<open>digits_end\<close> is the index it stops at, \<open>None\<close> when it leaves the buffer (a read
  outside the \<^verbatim>\<open>len\<close> bytes); \<^verbatim>\<open>*p = 0\<close> then writes at that index.
\<close>

function digits_end :: "buffer \<Rightarrow> nat \<Rightarrow> nat option" where
  "digits_end buf p =
     (if p < length buf then
        (if is_digit (buf ! p) then digits_end buf (p + 1) else Some p)
      else None)"
  by pat_completeness auto
termination
  by (relation "measure (\<lambda>(buf, p). length buf - p)") auto

declare digits_end.simps [simp del]

definition terminate_number :: "buffer \<Rightarrow> cptr \<Rightarrow> buffer option" where
  "terminate_number buf s =
     (case s of
        None \<Rightarrow> Some buf
      | Some p \<Rightarrow>
          (case digits_end buf p of
             None \<Rightarrow> None
           | Some e \<Rightarrow> Some (buf[e := CHR 0x00])))"

subsection \<open>The loops of the schema walker\<close>

text \<open>
  Every \<^verbatim>\<open>for (;;)\<close> loop is \<open>iterate body\<close>: the body runs on the loop's variables and
  either returns from the function (\<open>Return\<close>) or goes on with new values of the
  variables (\<open>Next\<close>). The result is an option: \<open>None\<close> when the C code gives no result,
  because the loop never ends or because \<^verbatim>\<open>terminate_number\<close> leaves the buffer.
\<close>

datatype ('r, 's) ctl = Return 'r | Next 's

partial_function (option) iterate :: "('s \<Rightarrow> ('r, 's) ctl option) \<Rightarrow> 's \<Rightarrow> 'r option" where
  "iterate body s =
     (case body s of
        None \<Rightarrow> None
      | Some (Return r) \<Rightarrow> Some r
      | Some (Next s') \<Rightarrow> iterate body s')"

declare iterate.simps [code]

text \<open>
  The loop over the keys of a \<^verbatim>\<open>user\<close> object, on \<^verbatim>\<open>buf\<close>, \<^verbatim>\<open>off\<close> and \<^verbatim>\<open>name\<close>.
  It ends with \<open>Inl buf\<close> where the C code returns \<^verbatim>\<open>len\<close> from \<^verbatim>\<open>parse_player\<close>, and
  with \<open>Inr\<close> of its variables where \<^verbatim>\<open>done\<close> is set.
\<close>

type_synonym user_vars = "buffer \<times> nat \<times> cptr"

definition user_body :: "user_vars \<Rightarrow> (buffer + user_vars, user_vars) ctl option" where
  "user_body s =
     (case s of (buf, off, nm) \<Rightarrow>
      case parse_key buf off of (key, buf, off) \<Rightarrow>
      case (if key = SYM_name
            then (case parse_string buf off of (p, buf, off) \<Rightarrow> (buf, off, p))
            else (case skip_value buf off of (buf, off) \<Rightarrow> (buf, off, nm)))
      of (buf, off, nm) \<Rightarrow>
      case json_next buf off of (t, buf, off) \<Rightarrow>
        if tok_type t = JSON_OEND then Some (Return (Inr (buf, off, nm)))
        else if tok_type t = JSON_COMMA then Some (Next (buf, off, nm))
        else Some (Return (Inl buf)))"

text \<open>
  \<^verbatim>\<open>parse_player\<close>: the variables of its loop are \<^verbatim>\<open>buf\<close>, \<^verbatim>\<open>off\<close>, \<^verbatim>\<open>idx\<close> (\<open>None\<close> for
  -1), \<^verbatim>\<open>rating\<close> and \<^verbatim>\<open>name\<close>. \<open>player_field\<close> is the switch on the key; it returns the
  buffer where the C code returns \<^verbatim>\<open>len\<close>. The function returns the buffer, the cursor
  and the array \<^verbatim>\<open>p\<close>.
\<close>

type_synonym player_vars = "buffer \<times> nat \<times> nat option \<times> cptr \<times> cptr"

definition player_field :: "symbol \<Rightarrow> player_vars \<Rightarrow> (buffer, player_vars) ctl option" where
  "player_field key s =
     (case s of (buf, off, idx, rt, nm) \<Rightarrow>
        if key = SYM_color then
          (case parse_enum buf off of (e, buf, off) \<Rightarrow>
             Some (Next (buf, off,
                         (if e = SYM_black then Some 0
                          else if e = SYM_white then Some 1 else idx), rt, nm)))
        else if key = SYM_user then
          (case json_next buf off of (t, buf, off) \<Rightarrow>
             if tok_type t \<noteq> JSON_OBEG then Some (Return buf)
             else (case iterate user_body (buf, off, nm) of
                     None \<Rightarrow> None
                   | Some (Inl buf) \<Rightarrow> Some (Return buf)
                   | Some (Inr (buf, off, nm)) \<Rightarrow> Some (Next (buf, off, idx, rt, nm))))
        else if key = SYM_rating then
          (case parse_number buf off of (p, buf, off) \<Rightarrow> Some (Next (buf, off, idx, p, nm)))
        else
          (case skip_value buf off of (buf, off) \<Rightarrow> Some (Next (buf, off, idx, rt, nm))))"

definition player_body ::
  "(nat \<Rightarrow> player) \<Rightarrow> player_vars \<Rightarrow> (buffer \<times> nat \<times> (nat \<Rightarrow> player), player_vars) ctl option"
where
  "player_body p s =
     (case s of (buf, off, idx, rt, nm) \<Rightarrow>
      case parse_key buf off of (key, buf, off) \<Rightarrow>
      case player_field key (buf, off, idx, rt, nm) of
        None \<Rightarrow> None
      | Some (Return buf) \<Rightarrow> Some (Return (buf, length buf, p))
      | Some (Next (buf, off, idx, rt, nm)) \<Rightarrow>
          (case json_next buf off of (t, buf, off) \<Rightarrow>
             if tok_type t = JSON_OEND then
               (case idx of
                  None \<Rightarrow> Some (Return (buf, length buf, p))
                | Some i \<Rightarrow>
                    (case terminate_number buf rt of
                       None \<Rightarrow> None
                     | Some buf \<Rightarrow>
                         Some (Return (buf, off, p(i := \<lparr>name = nm, rating = rt\<rparr>)))))
             else if tok_type t = JSON_COMMA then Some (Next (buf, off, idx, rt, nm))
             else Some (Return (buf, length buf, p))))"

definition parse_player ::
  "buffer \<Rightarrow> nat \<Rightarrow> (nat \<Rightarrow> player) \<Rightarrow> (buffer \<times> nat \<times> (nat \<Rightarrow> player)) option"
where
  "parse_player buf off p =
     (case json_next buf off of (t, buf, off) \<Rightarrow>
        if tok_type t \<noteq> JSON_OBEG then Some (buf, length buf, p)
        else iterate (player_body p) (buf, off, None, None, None))"

text \<open>
  \<^verbatim>\<open>parse_data\<close>: the variables of its loop are \<^verbatim>\<open>buf\<close>, \<^verbatim>\<open>off\<close> and the record \<^verbatim>\<open>*c\<close>.
  \<open>data_field\<close> is the switch on the key; it returns the buffer and the record where
  the C code returns \<^verbatim>\<open>len\<close>.
\<close>

type_synonym walk_vars = "buffer \<times> nat \<times> chunk"

definition data_field :: "symbol \<Rightarrow> walk_vars \<Rightarrow> (buffer \<times> chunk, walk_vars) ctl option" where
  "data_field key s =
     (case s of (buf, off, c) \<Rightarrow>
        if key = SYM_fen then
          (case parse_string buf off of (p, buf, off) \<Rightarrow> Some (Next (buf, off, c\<lparr>fen := p\<rparr>)))
        else if key = SYM_players then
          (case json_next buf off of (t, buf, off) \<Rightarrow>
             if tok_type t \<noteq> JSON_ABEG then Some (Return (buf, c))
             else
               (case parse_player buf off (players c) of
                  None \<Rightarrow> None
                | Some (buf, off, ps) \<Rightarrow>
                    (case json_next buf off of (t, buf, off) \<Rightarrow>
                       if tok_type t \<noteq> JSON_COMMA then Some (Return (buf, c\<lparr>players := ps\<rparr>))
                       else
                         (case parse_player buf off ps of
                            None \<Rightarrow> None
                          | Some (buf, off, ps) \<Rightarrow>
                              (case json_next buf off of (t, buf, off) \<Rightarrow>
                                 if tok_type t \<noteq> JSON_AEND
                                 then Some (Return (buf, c\<lparr>players := ps\<rparr>))
                                 else Some (Next (buf, off, c\<lparr>players := ps\<rparr>)))))))
        else
          (case skip_value buf off of (buf, off) \<Rightarrow> Some (Next (buf, off, c))))"

definition data_body :: "walk_vars \<Rightarrow> (walk_vars, walk_vars) ctl option" where
  "data_body s =
     (case s of (buf, off, c) \<Rightarrow>
      case parse_key buf off of (key, buf, off) \<Rightarrow>
      case data_field key (buf, off, c) of
        None \<Rightarrow> None
      | Some (Return (buf, c)) \<Rightarrow> Some (Return (buf, length buf, c))
      | Some (Next (buf, off, c)) \<Rightarrow>
          (case json_next buf off of (t, buf, off) \<Rightarrow>
             if tok_type t = JSON_OEND then Some (Return (buf, off, c))
             else if tok_type t = JSON_COMMA then Some (Next (buf, off, c))
             else Some (Return (buf, length buf, c))))"

definition parse_data :: "buffer \<Rightarrow> nat \<Rightarrow> chunk \<Rightarrow> walk_vars option" where
  "parse_data buf off c =
     (case json_next buf off of (t, buf, off) \<Rightarrow>
        if tok_type t \<noteq> JSON_OBEG then Some (buf, length buf, c)
        else iterate data_body (buf, off, c))"

text \<open>
  \<^verbatim>\<open>chunk_parse\<close> returns its \<^verbatim>\<open>int\<close>, the buffer and the record \<^verbatim>\<open>*c\<close> as the call
  leaves them. \<open>chunk_field\<close> is the switch on the key; it returns the buffer and the
  record where the C code returns 0.
\<close>

definition chunk_field :: "symbol \<Rightarrow> walk_vars \<Rightarrow> (buffer \<times> chunk, walk_vars) ctl option" where
  "chunk_field key s =
     (case s of (buf, off, c) \<Rightarrow>
        if key = SYM_t then
          (case parse_enum buf off of (e, buf, off) \<Rightarrow>
             if e = SYM_featured then Some (Next (buf, off, c\<lparr>type := CHUNK_FEATURED\<rparr>))
             else if e = SYM_fen then Some (Next (buf, off, c\<lparr>type := CHUNK_FEN\<rparr>))
             else Some (Return (buf, c)))
        else if key = SYM_d then
          (case parse_data buf off c of
             None \<Rightarrow> None
           | Some s' \<Rightarrow> Some (Next s'))
        else
          (case skip_value buf off of (buf, off) \<Rightarrow> Some (Next (buf, off, c))))"

definition chunk_body :: "walk_vars \<Rightarrow> (int \<times> buffer \<times> chunk, walk_vars) ctl option" where
  "chunk_body s =
     (case s of (buf, off, c) \<Rightarrow>
      case parse_key buf off of (key, buf, off) \<Rightarrow>
      case chunk_field key (buf, off, c) of
        None \<Rightarrow> None
      | Some (Return (buf, c)) \<Rightarrow> Some (Return (0, buf, c))
      | Some (Next (buf, off, c)) \<Rightarrow>
          (case json_next buf off of (t, buf, off) \<Rightarrow>
             if tok_type t = JSON_OEND then Some (Return (1, buf, c))
             else if tok_type t = JSON_COMMA then Some (Next (buf, off, c))
             else Some (Return (0, buf, c))))"

definition chunk_parse :: "buffer \<Rightarrow> chunk \<Rightarrow> (int \<times> buffer \<times> chunk) option" where
  "chunk_parse buf c =
     (case json_next buf 0 of (t, buf, off) \<Rightarrow>
        if tok_type t \<noteq> JSON_OBEG then Some (0, buf, c)
        else iterate chunk_body (buf, off, c))"

subsection \<open>Auxiliary definitions for the proofs\<close>

text \<open>The bytes that each entry of \<open>lut\<close> selects from \<open>sym_chars\<close>.\<close>

definition lut_names :: "string list" where
  "lut_names = [''d'', ''t'', ''featured'', ''user'', ''rating'', ''black'', ''color'',
                ''fen'', ''white'', ''players'', ''name'', [], [], [], [], []]"

definition is_ws :: "char \<Rightarrow> bool" where
  "is_ws ch = (ch = CHR 0x09 \<or> ch = CHR 0x0A \<or> ch = CHR 0x0D \<or> ch = CHR '' '')"

text \<open>The outcomes of \<open>json_next\<close>, one case for each kind of return.\<close>

definition punct_char :: "json_type \<Rightarrow> char option" where
  "punct_char ty =
     (if ty = JSON_OBEG then Some (CHR ''{'') else if ty = JSON_OEND then Some (CHR ''}'')
      else if ty = JSON_ABEG then Some (CHR ''['') else if ty = JSON_AEND then Some (CHR '']'')
      else if ty = JSON_COMMA then Some (CHR '','') else if ty = JSON_COLON then Some (CHR '':'')
      else None)"

definition moves :: "buffer \<Rightarrow> nat \<Rightarrow> buffer \<Rightarrow> nat \<Rightarrow> bool" where
  "moves buf off buf' off' \<longleftrightarrow>
     length buf' = length buf \<and> off \<le> off' \<and> off' \<le> length buf \<and>
     (\<forall>i < length buf. buf' ! i = buf ! i \<or> (off \<le> i \<and> buf' ! i = CHR 0x00))"

definition delim :: "char \<Rightarrow> bool" where
  "delim ch \<longleftrightarrow> is_ws ch \<or> ch = CHR '','' \<or> ch = CHR ''}''"

definition rating_mid :: "nat \<Rightarrow> buffer \<Rightarrow> nat \<Rightarrow> cptr \<Rightarrow> bool" where
  "rating_mid lo buf off rt =
     (case rt of
        None \<Rightarrow> True
      | Some r \<Rightarrow> lo \<le> r \<and> r < scan_digits buf r \<and> scan_digits buf r \<le> off \<and>
          (scan_digits buf r < off \<longrightarrow> delim (buf ! scan_digits buf r)))"

definition rating_head :: "nat \<Rightarrow> buffer \<Rightarrow> nat \<Rightarrow> cptr \<Rightarrow> bool" where
  "rating_head lo buf off rt =
     (case rt of
        None \<Rightarrow> True
      | Some r \<Rightarrow> lo \<le> r \<and> r < scan_digits buf r \<and> scan_digits buf r < off \<and>
          delim (buf ! scan_digits buf r))"

definition no_player :: player where
  "no_player = \<lparr>name = None, rating = None\<rparr>"

definition zero_chunk :: chunk where
  "zero_chunk = \<lparr>fen = None, players = (\<lambda>i. no_player), type = CHUNK_UNKNOWN\<rparr>"

definition scenario_A :: buffer where
  "scenario_A =
     ''{\"t\":\"featured\",\"d\":{\"fen\":\"rnbqkbnr/...\",\"players\":[{\"color\":\"black\",\"rating\":2500,\"user\":{\"name\":\"Alice\"}},{\"color\":\"white\",\"rating\":2400,\"user\":{\"name\":\"Bob\"}}]}}''"

definition scenario_B :: buffer where
  "scenario_B = ''{\"t\":\"fen\",\"d\":{\"fen\":\"8/8/8/8/8/8/8/8\"}}''"

text \<open>
  A record that is not zero when the call begins: the one that the parse of the buffer
  of Scenario A leaves in a zero record.
\<close>

definition used_chunk :: chunk where
  "used_chunk =
     \<lparr>fen = Some 28,
      players = (\<lambda>i. no_player)(0 := \<lparr>name = Some 100, rating = Some 79\<rparr>,
                                 1 := \<lparr>name = Some 156, rating = Some 135\<rparr>),
      type = CHUNK_FEATURED\<rparr>"

text \<open>
  The states in which the first \<open>n + 1\<close> passes of a loop begin, for a loop that starts in
  \<open>s\<close>; the list is shorter when the loop ends before.
\<close>

fun iter_heads :: "nat \<Rightarrow> ('s \<Rightarrow> ('r, 's) ctl option) \<Rightarrow> 's \<Rightarrow> 's list" where
  "iter_heads 0 body s = [s]"
| "iter_heads (Suc n) body s =
     s # (case body s of Some (Next s') \<Rightarrow> iter_heads n body s' | _ \<Rightarrow> [])"

text \<open>
  What a run of \<open>chunk_parse\<close> on \<open>buf\<close> and \<open>c\<close> goes through, each loop followed for
  \<open>n + 1\<close> passes: the states in which the passes of its own loop begin, the arguments of
  the calls of \<open>parse_data\<close> and \<open>parse_player\<close>, the states in which the passes of their
  loops begin, and the same for the loop over a \<^verbatim>\<open>user\<close> object.
\<close>

definition chunk_heads :: "nat \<Rightarrow> buffer \<Rightarrow> chunk \<Rightarrow> walk_vars list" where
  "chunk_heads n buf c =
     (case json_next buf 0 of (t, buf, off) \<Rightarrow>
        if tok_type t \<noteq> JSON_OBEG then [] else iter_heads n chunk_body (buf, off, c))"

definition data_calls_at :: "walk_vars \<Rightarrow> walk_vars list" where
  "data_calls_at s =
     (case s of (buf, off, c) \<Rightarrow>
      case parse_key buf off of (key, buf, off) \<Rightarrow>
        if key = SYM_d then [(buf, off, c)] else [])"

definition data_heads :: "nat \<Rightarrow> walk_vars \<Rightarrow> walk_vars list" where
  "data_heads n s =
     (case s of (buf, off, c) \<Rightarrow>
      case json_next buf off of (t, buf, off) \<Rightarrow>
        if tok_type t \<noteq> JSON_OBEG then [] else iter_heads n data_body (buf, off, c))"

type_synonym player_call = "buffer \<times> nat \<times> (nat \<Rightarrow> player)"

definition second_call :: "player_call \<Rightarrow> player_call list" where
  "second_call s =
     (case s of (buf, off, p) \<Rightarrow>
      case parse_player buf off p of
        None \<Rightarrow> []
      | Some (buf, off, ps) \<Rightarrow>
          (case json_next buf off of (t, buf, off) \<Rightarrow>
             if tok_type t \<noteq> JSON_COMMA then [] else [(buf, off, ps)]))"

definition player_calls_at :: "walk_vars \<Rightarrow> player_call list" where
  "player_calls_at s =
     (case s of (buf, off, c) \<Rightarrow>
      case parse_key buf off of (key, buf, off) \<Rightarrow>
        if key \<noteq> SYM_players then []
        else (case json_next buf off of (t, buf, off) \<Rightarrow>
          if tok_type t \<noteq> JSON_ABEG then []
          else (buf, off, players c) # second_call (buf, off, players c)))"

definition player_heads :: "nat \<Rightarrow> player_call \<Rightarrow> player_vars list" where
  "player_heads n s =
     (case s of (buf, off, p) \<Rightarrow>
      case json_next buf off of (t, buf, off) \<Rightarrow>
        if tok_type t \<noteq> JSON_OBEG then []
        else iter_heads n (player_body p) (buf, off, None, None, None))"

definition user_loops_at :: "player_vars \<Rightarrow> user_vars list" where
  "user_loops_at s =
     (case s of (buf, off, idx, rt, nm) \<Rightarrow>
      case parse_key buf off of (key, buf, off) \<Rightarrow>
        if key \<noteq> SYM_user then []
        else (case json_next buf off of (t, buf, off) \<Rightarrow>
          if tok_type t \<noteq> JSON_OBEG then [] else [(buf, off, nm)]))"

definition run_data_heads :: "nat \<Rightarrow> buffer \<Rightarrow> chunk \<Rightarrow> walk_vars list" where
  "run_data_heads n buf c =
     concat (map (data_heads n) (concat (map data_calls_at (chunk_heads n buf c))))"

definition run_player_calls :: "nat \<Rightarrow> buffer \<Rightarrow> chunk \<Rightarrow> player_call list" where
  "run_player_calls n buf c = concat (map player_calls_at (run_data_heads n buf c))"

definition run_player_heads :: "nat \<Rightarrow> buffer \<Rightarrow> chunk \<Rightarrow> player_vars list" where
  "run_player_heads n buf c = concat (map (player_heads n) (run_player_calls n buf c))"

definition run_user_heads :: "nat \<Rightarrow> buffer \<Rightarrow> chunk \<Rightarrow> user_vars list" where
  "run_user_heads n buf c =
     concat (map (iter_heads n user_body) (concat (map user_loops_at (run_player_heads n buf c))))"

definition scenario_C :: buffer where
  "scenario_C = ''{\"t\":\"bogus\",\"d\":{}}''"

text \<open>A buffer whose first player has no \<^verbatim>\<open>color\<close> key.\<close>

definition no_color :: buffer where
  "no_color = ''{\"d\":{\"players\":[{\"rating\":1},{\"color\":\"black\"}]}}''"

text \<open>
  What the passes of the loops write into the record. \<open>kind_write_at\<close> is the kind that a
  pass of the loop of \<open>chunk_parse\<close> assigns to \<^verbatim>\<open>c->type\<close>, \<open>fen_write_at\<close> the pointer that
  a pass of the loop of \<open>parse_data\<close> assigns to \<^verbatim>\<open>c->fen\<close>, and \<open>commit_at i\<close> the player
  that a pass of the loop of \<open>parse_player\<close> assigns to \<^verbatim>\<open>p[i]\<close>; each is a list with no
  element when the pass does not assign. The lists of a run collect them in the order of
  the passes.
\<close>

definition kind_write_at :: "walk_vars \<Rightarrow> chunk_type list" where
  "kind_write_at s =
     (case s of (buf, off, c) \<Rightarrow>
      case parse_key buf off of (key, buf, off) \<Rightarrow>
        if key = SYM_t then
          (case parse_enum buf off of (e, buf, off) \<Rightarrow>
             if e = SYM_featured then [CHUNK_FEATURED]
             else if e = SYM_fen then [CHUNK_FEN] else [])
        else [])"

definition fen_write_at :: "walk_vars \<Rightarrow> cptr list" where
  "fen_write_at s =
     (case s of (buf, off, c) \<Rightarrow>
      case parse_key buf off of (key, buf, off) \<Rightarrow>
        if key = SYM_fen then [fst (parse_string buf off)] else [])"

definition commit_at :: "nat \<Rightarrow> player_vars \<Rightarrow> player list" where
  "commit_at i s =
     (case s of (buf, off, idx, rt, nm) \<Rightarrow>
      case parse_key buf off of (key, buf, off) \<Rightarrow>
      case player_field key (buf, off, idx, rt, nm) of
        Some (Next (buf, off, idx, rt, nm)) \<Rightarrow>
          (case json_next buf off of (t, buf, off) \<Rightarrow>
             if tok_type t = JSON_OEND \<and> idx = Some i then [\<lparr>name = nm, rating = rt\<rparr>]
             else [])
      | _ \<Rightarrow> [])"

definition kind_writes :: "nat \<Rightarrow> buffer \<Rightarrow> chunk \<Rightarrow> chunk_type list" where
  "kind_writes n buf c = concat (map kind_write_at (chunk_heads n buf c))"

definition fen_writes :: "nat \<Rightarrow> buffer \<Rightarrow> chunk \<Rightarrow> cptr list" where
  "fen_writes n buf c = concat (map fen_write_at (run_data_heads n buf c))"

definition slot_writes :: "nat \<Rightarrow> nat \<Rightarrow> buffer \<Rightarrow> chunk \<Rightarrow> player list" where
  "slot_writes i n buf c = concat (map (commit_at i) (run_player_heads n buf c))"

text \<open>
  The key that a pass of a loop parses, from the state in which the pass begins, and the
  keys of the passes of the loop of \<open>chunk_parse\<close> and of the loops of \<open>parse_data\<close> in a
  run.
\<close>

definition key_at :: "buffer \<times> nat \<times> 'a \<Rightarrow> symbol" where
  "key_at s = fst (parse_key (fst s) (fst (snd s)))"

definition chunk_keys :: "nat \<Rightarrow> buffer \<Rightarrow> chunk \<Rightarrow> symbol list" where
  "chunk_keys n buf c = map key_at (chunk_heads n buf c)"

definition data_keys :: "nat \<Rightarrow> buffer \<Rightarrow> chunk \<Rightarrow> symbol list" where
  "data_keys n buf c = map key_at (run_data_heads n buf c)"

text \<open>A buffer with no key of the schema.\<close>

definition only_id :: buffer where
  "only_id = ''{\"id\":\"x\"}''"

(*DEFS-END*)

section \<open>Properties\<close>

subsection \<open>parse_symbol\<close>

lemma sym_index_less: "sym_index sc tok < 16"
proof -
  have "drop_bit 28 (sym_hash sc tok * 2367153) AND 15 \<le> (15 :: 32 word)"
    by (rule word_and_le1)
  then have "unat (drop_bit 28 (sym_hash sc tok * 2367153) AND 15) \<le> unat (15 :: 32 word)"
    by (simp add: word_le_nat_alt)
  then show ?thesis by (simp add: sym_index_def)
qed

lemma lut_table:
  "map (\<lambda>(loff, llen). (llen, take llen (drop loff sym_chars))) lut =
   map (\<lambda>n. (length n, n)) lut_names"
  by (simp add: lut_def sym_chars_def lut_names_def)

lemma lut_match_iff:
  assumes "i < 16"
  shows "lut_match i tok \<longleftrightarrow> tok = lut_names ! i"
proof -
  obtain loff llen where l: "lut ! i = (loff, llen)" by (cases "lut ! i")
  have len: "length lut = 16" "length lut_names = 16" by (simp_all add: lut_def lut_names_def)
  have m: "map (\<lambda>(loff, llen). (llen, take llen (drop loff sym_chars))) lut ! i =
        map (\<lambda>n. (length n, n)) lut_names ! i"
    by (simp only: lut_table)
  have a: "map (\<lambda>(loff, llen). (llen, take llen (drop loff sym_chars))) lut ! i =
        (llen, take llen (drop loff sym_chars))"
    using assms len l by simp
  have b: "map (\<lambda>n. (length n, n)) lut_names ! i =
        (length (lut_names ! i), lut_names ! i)"
    using assms len by simp
  from m have "(llen, take llen (drop loff sym_chars)) =
        (length (lut_names ! i), lut_names ! i)"
    by (simp only: a b)
  then have e: "llen = length (lut_names ! i)"
    "take llen (drop loff sym_chars) = lut_names ! i"
    using prod.inject [of llen "take llen (drop loff sym_chars)"] by blast+
  show ?thesis
  proof
    assume "lut_match i tok"
    with l have "llen = length tok" "take (length tok) (drop loff sym_chars) = tok"
      by (simp_all add: lut_match_def)
    with e show "tok = lut_names ! i" by simp
  next
    assume "tok = lut_names ! i"
    with e l show "lut_match i tok" by (simp add: lut_match_def)
  qed
qed

text \<open>The hash of each known name, for a signed and for an unsigned \<^verbatim>\<open>char\<close>.\<close>

lemma sym_index_names:
  "sym_index sc ''d'' = 0" "sym_index sc ''t'' = 1" "sym_index sc ''featured'' = 2"
  "sym_index sc ''user'' = 3" "sym_index sc ''rating'' = 4" "sym_index sc ''black'' = 5"
  "sym_index sc ''color'' = 6" "sym_index sc ''fen'' = 7" "sym_index sc ''white'' = 8"
  "sym_index sc ''players'' = 9" "sym_index sc ''name'' = 10" "sym_index sc [] = 0"
  by (cases sc; simp add: sym_index_def sym_hash_def sym_tmp_def char_to_unsigned_def)+

text \<open>\<^verbatim>\<open>return i\<close> is reached only for an index that is an enumerator of a name.\<close>

lemma parse_symbol_accepts_only_names:
  assumes "lut_match (sym_index sc tok) tok"
  shows "sym_index sc tok < 11"
proof (rule ccontr)
  assume "\<not> sym_index sc tok < 11"
  with sym_index_less [of sc tok] have "sym_index sc tok \<in> {11, 12, 13, 14, 15}"
    by (simp only: insert_iff empty_iff) presburger
  moreover from assms have "tok = lut_names ! sym_index sc tok"
    by (simp add: lut_match_iff sym_index_less)
  ultimately have "tok = []"
    by (elim insertE emptyE) (simp_all add: lut_names_def)
  with \<open>\<not> sym_index sc tok < 11\<close> show False by (simp add: sym_index_names)
qed

lemma parse_symbol_with_eq:
  "parse_symbol_with sc tok =
     (if tok = ''d'' then SYM_d else if tok = ''t'' then SYM_t
      else if tok = ''featured'' then SYM_featured else if tok = ''user'' then SYM_user
      else if tok = ''rating'' then SYM_rating else if tok = ''black'' then SYM_black
      else if tok = ''color'' then SYM_color else if tok = ''fen'' then SYM_fen
      else if tok = ''white'' then SYM_white else if tok = ''players'' then SYM_players
      else if tok = ''name'' then SYM_name else SYM_UNKNOWN)"
proof (cases "lut_match (sym_index sc tok) tok")
  case True
  then have tok: "tok = lut_names ! sym_index sc tok"
    by (simp add: lut_match_iff sym_index_less)
  from True have ps: "parse_symbol_with sc tok = symbol_of_index (sym_index sc tok)"
    by (simp add: parse_symbol_with_def)
  from True have "sym_index sc tok < 11" by (rule parse_symbol_accepts_only_names)
  then have "sym_index sc tok \<in> {0, 1, 2, 3, 4, 5, 6, 7, 8, 9, 10}"
    by (simp only: insert_iff empty_iff) presburger
  then show ?thesis
    using tok ps by (elim insertE emptyE) (simp_all add: lut_names_def symbol_of_index_def)
next
  case False
  have "tok \<noteq> n" if "n \<in> set (take 11 lut_names)" for n
  proof
    assume "tok = n"
    with that False show False
      by (auto simp: lut_names_def sym_index_names lut_match_iff)
  qed
  then have "tok \<notin> set (take 11 lut_names)" by blast
  with False show ?thesis by (simp add: parse_symbol_with_def lut_names_def)
qed

lemma parse_symbol_eq:
  "parse_symbol tok =
     (if tok = ''d'' then SYM_d else if tok = ''t'' then SYM_t
      else if tok = ''featured'' then SYM_featured else if tok = ''user'' then SYM_user
      else if tok = ''rating'' then SYM_rating else if tok = ''black'' then SYM_black
      else if tok = ''color'' then SYM_color else if tok = ''fen'' then SYM_fen
      else if tok = ''white'' then SYM_white else if tok = ''players'' then SYM_players
      else if tok = ''name'' then SYM_name else SYM_UNKNOWN)"
  by (simp only: parse_symbol_def parse_symbol_with_eq)

text \<open>Evaluation of the parser on a concrete buffer uses this characterisation.\<close>

declare parse_symbol_eq [code]

text \<open>
  Claim C2. A span that is, byte for byte and in length, one of the eleven names
  \<^verbatim>\<open>d\<close>, \<^verbatim>\<open>t\<close>, \<^verbatim>\<open>featured\<close>, \<^verbatim>\<open>user\<close>, \<^verbatim>\<open>rating\<close>, \<^verbatim>\<open>black\<close>, \<^verbatim>\<open>color\<close>, \<^verbatim>\<open>fen\<close>, \<^verbatim>\<open>white\<close>,
  \<^verbatim>\<open>players\<close>, \<^verbatim>\<open>name\<close> gives the symbol of that name, and every other span (a name with a
  byte changed, cut short or extended, the empty span, any other bytes) gives
  \<open>SYM_UNKNOWN\<close>. This holds for a signed and for an unsigned \<^verbatim>\<open>char\<close>.
\<close>

theorem parse_symbol_exact:
  "parse_symbol tok =
     (if tok = ''d'' then SYM_d else if tok = ''t'' then SYM_t
      else if tok = ''featured'' then SYM_featured else if tok = ''user'' then SYM_user
      else if tok = ''rating'' then SYM_rating else if tok = ''black'' then SYM_black
      else if tok = ''color'' then SYM_color else if tok = ''fen'' then SYM_fen
      else if tok = ''white'' then SYM_white else if tok = ''players'' then SYM_players
      else if tok = ''name'' then SYM_name else SYM_UNKNOWN)
   \<and> parse_symbol_with sc tok = parse_symbol tok"
  by (simp only: parse_symbol_def parse_symbol_with_eq simp_thms)

lemma drop_nth_Cons: "off < length buf \<Longrightarrow> drop off buf = buf ! off # drop (Suc off) buf"
  by (simp add: Cons_nth_drop_Suc)

lemma skip_whitespace_stop:
  "\<not> (off < length buf \<and> is_ws (buf ! off)) \<Longrightarrow> skip_whitespace buf off = off"
  by (subst skip_whitespace.simps) (auto simp: is_ws_def)

lemma skip_whitespace_step:
  "off < length buf \<Longrightarrow> is_ws (buf ! off) \<Longrightarrow>
   skip_whitespace buf off = skip_whitespace buf (off + 1)"
  by (subst skip_whitespace.simps) (auto simp: is_ws_def)

lemma skip_whitespace_eq:
  "skip_whitespace buf off = off + length (takeWhile is_ws (drop off buf))"
proof (induction buf off rule: skip_whitespace.induct)
  case (1 buf off)
  show ?case
  proof (cases "off < length buf \<and> is_ws (buf ! off)")
    case True
    then have c: "buf ! off = CHR 0x09 \<or> buf ! off = CHR 0x0A \<or> buf ! off = CHR 0x0D \<or>
        buf ! off = CHR '' ''"
      by (simp add: is_ws_def)
    from True have d: "drop off buf = buf ! off # drop (Suc off) buf"
      by (simp add: drop_nth_Cons)
    from True c have "skip_whitespace buf (off + 1) =
        off + 1 + length (takeWhile is_ws (drop (off + 1) buf))"
      by (intro "1.IH") simp_all
    with True show ?thesis
      by (simp add: skip_whitespace_step d)
  next
    case False
    then have "takeWhile is_ws (drop off buf) = []"
      by (cases "off < length buf") (simp_all add: drop_nth_Cons)
    with False show ?thesis by (simp add: skip_whitespace_stop)
  qed
qed

lemma skip_until_eq:
  "skip_until buf off b = off + length (takeWhile (\<lambda>ch. ch \<noteq> b) (drop off buf))"
proof (induction buf off b rule: skip_until.induct)
  case (1 buf off byte)
  show ?case
  proof (cases "off < length buf")
    case True
    note d = drop_nth_Cons [OF True]
    show ?thesis
    proof (cases "buf ! off = byte")
      case True
      with \<open>off < length buf\<close> show ?thesis
        by (subst skip_until.simps) (simp add: d)
    next
      case False
      with \<open>off < length buf\<close> 1 have "skip_until buf (off + 1) byte =
          off + 1 + length (takeWhile (\<lambda>ch. ch \<noteq> byte) (drop (off + 1) buf))"
        by simp
      with False \<open>off < length buf\<close> show ?thesis
        by (subst skip_until.simps) (simp add: d)
    qed
  next
    case False
    then show ?thesis by (subst skip_until.simps) simp
  qed
qed

lemma scan_digits_eq:
  "scan_digits buf off = off + length (takeWhile is_digit (drop off buf))"
proof (induction buf off rule: scan_digits.induct)
  case (1 buf off)
  show ?case
  proof (cases "off < length buf \<and> is_digit (buf ! off)")
    case True
    then have d: "drop off buf = buf ! off # drop (Suc off) buf" by (simp add: drop_nth_Cons)
    from True 1 have "scan_digits buf (off + 1) =
        off + 1 + length (takeWhile is_digit (drop (off + 1) buf))"
      by simp
    with True show ?thesis
      by (subst scan_digits.simps) (simp add: d)
  next
    case False
    then have "takeWhile is_digit (drop off buf) = []"
      by (cases "off < length buf") (simp_all add: drop_nth_Cons)
    with False show ?thesis by (subst scan_digits.simps) auto
  qed
qed

lemma digits_end_eq:
  "digits_end buf p =
     (if p + length (takeWhile is_digit (drop p buf)) < length buf
      then Some (p + length (takeWhile is_digit (drop p buf))) else None)"
proof (induction buf p rule: digits_end.induct)
  case (1 buf p)
  show ?case
  proof (cases "p < length buf")
    case True
    note d = drop_nth_Cons [OF True]
    show ?thesis
    proof (cases "is_digit (buf ! p)")
      case True
      with \<open>p < length buf\<close> 1 have "digits_end buf (p + 1) =
         (if p + 1 + length (takeWhile is_digit (drop (p + 1) buf)) < length buf
          then Some (p + 1 + length (takeWhile is_digit (drop (p + 1) buf))) else None)"
        by simp
      with True \<open>p < length buf\<close> show ?thesis
        by (subst digits_end.simps) (simp add: d)
    next
      case False
      with \<open>p < length buf\<close> show ?thesis
        by (subst digits_end.simps) (simp add: d)
    qed
  next
    case False
    then show ?thesis by (subst digits_end.simps) simp
  qed
qed

lemma takeWhile_drop_le: "off \<le> length buf \<Longrightarrow> off + length (takeWhile P (drop off buf)) \<le> length buf"
  using length_takeWhile_le [of P "drop off buf"] by simp

lemma of_char_nat_eq: "(of_char ch :: nat) = of_char d \<Longrightarrow> ch = d"
  by (metis char_of_char)

lemma is_digit_iff: "is_digit ch \<longleftrightarrow> ch \<in> set ''0123456789''"
proof
  assume "is_digit ch"
  then have "48 \<le> (of_char ch :: nat) \<and> (of_char ch :: nat) \<le> 57"
    by (simp add: is_digit_def less_eq_char_def)
  then have "(of_char ch :: nat) \<in> {48, 49, 50, 51, 52, 53, 54, 55, 56, 57}"
    by (simp only: insert_iff empty_iff) presburger
  then have "\<exists>d \<in> set ''0123456789''. (of_char ch :: nat) = of_char d"
    by (elim insertE emptyE) simp_all
  then show "ch \<in> set ''0123456789''" by (auto dest: of_char_nat_eq)
next
  assume "ch \<in> set ''0123456789''"
  then show "is_digit ch" by (auto simp: is_digit_def less_eq_char_def)
qed

lemma is_digit_chars [simp]:
  "\<not> is_digit (CHR ''{'')" "\<not> is_digit (CHR ''}'')" "\<not> is_digit (CHR ''['')"
  "\<not> is_digit (CHR '']'')" "\<not> is_digit (CHR 0x22)" "\<not> is_digit (CHR '','')"
  "\<not> is_digit (CHR '':'')" "\<not> is_digit (CHR ''f'')" "\<not> is_digit (CHR ''t'')"
  "\<not> is_digit (CHR 0x00)" "\<not> is_digit (CHR 0x09)" "\<not> is_digit (CHR 0x0A)"
  "\<not> is_digit (CHR 0x0D)" "\<not> is_digit (CHR '' '')"
  by (simp_all add: is_digit_iff)

lemma is_ws_not_digit: "is_ws ch \<Longrightarrow> \<not> is_digit ch"
  by (auto simp: is_ws_def)

lemma skip_whitespace_ge: "off \<le> skip_whitespace buf off"
  by (simp add: skip_whitespace_eq)

lemma skip_whitespace_le: "off \<le> length buf \<Longrightarrow> skip_whitespace buf off \<le> length buf"
  by (simp add: skip_whitespace_eq takeWhile_drop_le)

lemma skip_until_ge: "off \<le> skip_until buf off b"
  by (simp add: skip_until_eq)

lemma skip_until_le: "off \<le> length buf \<Longrightarrow> skip_until buf off b \<le> length buf"
  by (simp add: skip_until_eq takeWhile_drop_le)

lemma scan_digits_le: "off \<le> length buf \<Longrightarrow> scan_digits buf off \<le> length buf"
  by (simp add: scan_digits_eq takeWhile_drop_le)

lemma scan_digits_gt:
  "off < length buf \<Longrightarrow> is_digit (buf ! off) \<Longrightarrow> off < scan_digits buf off"
  by (simp add: scan_digits_eq drop_nth_Cons)

lemma json_next_cases [consumes 2, case_names stay punct string unterminated number literal bad_literal]:
  assumes "json_next buf off = (t, buf', off')" and "off \<le> length buf"
  obtains
    "tok_type t = JSON_ERROR" "buf' = buf" "off' = skip_whitespace buf off"
  | q ty where "q = skip_whitespace buf off" "q < length buf" "punct_char ty = Some (buf ! q)"
      "t = \<lparr>tok_off = q, tok_len = 1, tok_type = ty\<rparr>" "buf' = buf" "off' = q + 1"
  | q e where "q = skip_whitespace buf off" "q < length buf" "buf ! q = CHR 0x22"
      "e = skip_until buf (q + 1) (CHR 0x22)" "e < length buf"
      "t = \<lparr>tok_off = q + 1, tok_len = e - (q + 1), tok_type = JSON_STRING\<rparr>"
      "buf' = buf[e := CHR 0x00]" "off' = e + 1"
  | q where "q = skip_whitespace buf off" "q < length buf" "buf ! q = CHR 0x22"
      "skip_until buf (q + 1) (CHR 0x22) = length buf"
      "tok_type t = JSON_ERROR" "buf' = buf" "off' = length buf"
  | q e where "q = skip_whitespace buf off" "q < length buf" "is_digit (buf ! q)"
      "e = scan_digits buf q"
      "t = \<lparr>tok_off = q, tok_len = e - q, tok_type = JSON_NUMBER\<rparr>" "buf' = buf" "off' = e"
  | q n ty where "q = skip_whitespace buf off" "q + n \<le> length buf"
      "(ty = JSON_FALSE \<and> n = 5 \<and> take 5 (drop q buf) = ''false'') \<or>
       (ty = JSON_TRUE \<and> n = 4 \<and> take 4 (drop q buf) = ''true'')"
      "t = \<lparr>tok_off = q, tok_len = n, tok_type = ty\<rparr>" "buf' = buf" "off' = q + n"
  | q where "q = skip_whitespace buf off" "q < length buf"
      "buf ! q = CHR ''f'' \<or> buf ! q = CHR ''t''"
      "tok_type t = JSON_ERROR" "buf' = buf" "off' = length buf"
proof -
  define q where "q = skip_whitespace buf off"
  have ql: "q \<le> length buf" using assms(2) by (simp add: q_def skip_whitespace_le)
  show ?thesis
  proof (cases "q = length buf")
    case True
    with assms(1) have "tok_type t = JSON_ERROR" "buf' = buf" "off' = skip_whitespace buf off"
      by (auto simp: json_next_def Let_def peek_def q_def)
    then show ?thesis by (rule that(1))
  next
    case False
    with ql have qlt: "q < length buf" by simp
    from False have pk: "peek buf q = Some (buf ! q)" by (simp add: peek_def)
    note jn = assms(1) [unfolded json_next_def Let_def, folded q_def, unfolded pk option.case]
    consider
        (p) ty where "punct_char ty = Some (buf ! q)"
      | (s) "buf ! q = CHR 0x22"
      | (n) "is_digit (buf ! q)"
      | (f) "buf ! q = CHR ''f''"
      | (t) "buf ! q = CHR ''t''"
      | (o) "\<forall>ty. punct_char ty \<noteq> Some (buf ! q)" "buf ! q \<noteq> CHR 0x22" "\<not> is_digit (buf ! q)"
            "buf ! q \<noteq> CHR ''f''" "buf ! q \<noteq> CHR ''t''"
      by blast
    then show ?thesis
    proof cases
      case p
      then have "\<not> is_digit (buf ! q)"
        by (auto simp: punct_char_def is_digit_iff split: if_splits)
      with p have r: "t = \<lparr>tok_off = q, tok_len = 1, tok_type = ty\<rparr>" "buf' = buf" "off' = q + 1"
        using jn by (auto simp: punct_char_def punct_def split: if_splits)
      show ?thesis
        by (rule that(2) [of q ty]) (use r p qlt in \<open>simp_all only: q_def simp_thms\<close>)
    next
      case s
      define e where "e = skip_until buf (q + 1) (CHR 0x22)"
      from qlt have el: "e \<le> length buf" by (simp add: e_def skip_until_le)
      note je = jn [folded e_def]
      show ?thesis
      proof (cases "e = length buf")
        case True
        with s je have r: "tok_type t = JSON_ERROR" "buf' = buf" "off' = length buf"
          by auto
        show ?thesis
          by (rule that(4) [of q]) (use r s qlt True in \<open>simp_all only: q_def e_def simp_thms\<close>)
      next
        case False
        with s je have r: "t = \<lparr>tok_off = q + 1, tok_len = e - (q + 1), tok_type = JSON_STRING\<rparr>"
            "buf' = buf[e := CHR 0x00]" "off' = e + 1"
          by auto
        from False el have elt: "e < length buf" by simp
        show ?thesis
          by (rule that(3) [of q e]) (use r s qlt elt in \<open>simp_all only: q_def e_def simp_thms\<close>)
      qed
    next
      case n
      then have "buf ! q \<noteq> CHR ''{''" "buf ! q \<noteq> CHR ''}''" "buf ! q \<noteq> CHR ''[''"
          "buf ! q \<noteq> CHR '']''" "buf ! q \<noteq> CHR 0x22" "buf ! q \<noteq> CHR '',''"
        by auto
      with n jn have r: "t = \<lparr>tok_off = q, tok_len = scan_digits buf q - q, tok_type = JSON_NUMBER\<rparr>"
          "buf' = buf" "off' = scan_digits buf q"
        by auto
      show ?thesis
        by (rule that(5) [of q "scan_digits buf q"])
           (use r n qlt in \<open>simp_all only: q_def simp_thms\<close>)
    next
      case f
      define lit where "lit \<longleftrightarrow> length buf - q \<ge> 5 \<and> take 5 (drop q buf) = ''false''"
      note jl = jn [folded lit_def]
      show ?thesis
      proof (cases lit)
        case True
        with f jl have r: "t = \<lparr>tok_off = q, tok_len = 5, tok_type = JSON_FALSE\<rparr>"
            "buf' = buf" "off' = q + 5"
          by auto
        from True have "5 \<le> length buf - q" by (simp only: lit_def)
        then have b: "q + 5 \<le> length buf" using ql by linarith
        from True have l: "take 5 (drop q buf) = ''false''" by (simp only: lit_def)
        show ?thesis
          by (rule that(6) [of q 5 JSON_FALSE]) (use r b l in \<open>simp_all only: q_def simp_thms\<close>)
      next
        case False
        with f jl have r: "tok_type t = JSON_ERROR" "buf' = buf" "off' = length buf"
          by auto
        show ?thesis
          by (rule that(7) [of q]) (use r f qlt in \<open>simp_all only: q_def simp_thms\<close>)
      qed
    next
      case t
      define lit where "lit \<longleftrightarrow> length buf - q \<ge> 4 \<and> take 4 (drop q buf) = ''true''"
      note jl = jn [folded lit_def]
      show ?thesis
      proof (cases lit)
        case True
        with t jl have r: "t = \<lparr>tok_off = q, tok_len = 4, tok_type = JSON_TRUE\<rparr>"
            "buf' = buf" "off' = q + 4"
          by auto
        from True have "4 \<le> length buf - q" by (simp only: lit_def)
        then have b: "q + 4 \<le> length buf" using ql by linarith
        from True have l: "take 4 (drop q buf) = ''true''" by (simp only: lit_def)
        show ?thesis
          by (rule that(6) [of q 4 JSON_TRUE]) (use r b l in \<open>simp_all only: q_def simp_thms\<close>)
      next
        case False
        with t jl have r: "tok_type t = JSON_ERROR" "buf' = buf" "off' = length buf"
          by auto
        show ?thesis
          by (rule that(7) [of q]) (use r t qlt in \<open>simp_all only: q_def simp_thms\<close>)
      qed
    next
      case o
      from o(1) [THEN spec, of JSON_OBEG] o(1) [THEN spec, of JSON_OEND]
        o(1) [THEN spec, of JSON_ABEG] o(1) [THEN spec, of JSON_AEND]
        o(1) [THEN spec, of JSON_COMMA] o(1) [THEN spec, of JSON_COLON]
      have ne: "buf ! q \<noteq> CHR ''{''" "buf ! q \<noteq> CHR ''}''" "buf ! q \<noteq> CHR ''[''"
          "buf ! q \<noteq> CHR '']''" "buf ! q \<noteq> CHR '',''" "buf ! q \<noteq> CHR '':''"
        by (simp_all add: punct_char_def)
      from ne o(2-5) jn have "tok_type t = JSON_ERROR" "buf' = buf" "off' = q"
        by auto
      then show ?thesis by (intro that(1)) (simp_all only: q_def)
    qed
  qed
qed

lemma moves_refl: "off \<le> length buf \<Longrightarrow> moves buf off buf off"
  by (simp add: moves_def)

lemma moves_trans:
  assumes "moves a x b y" and "moves b y c z"
  shows "moves a x c z"
  unfolding moves_def
proof (intro conjI allI impI)
  fix i assume "i < length a"
  with assms show "c ! i = a ! i \<or> x \<le> i \<and> c ! i = CHR 0x00"
    unfolding moves_def by (metis le_trans)
qed (use assms in \<open>auto simp: moves_def\<close>)

lemma moves_to_end: "moves buf off buf' off' \<Longrightarrow> moves buf off buf' (length buf')"
  by (auto simp: moves_def)

lemma moves_le: "moves buf off buf' off' \<Longrightarrow> off' \<le> length buf'"
  by (simp add: moves_def)

lemma moves_length: "moves buf off buf' off' \<Longrightarrow> length buf' = length buf"
  by (simp add: moves_def)

lemma moves_mono: "moves buf off buf' off' \<Longrightarrow> off \<le> off'"
  by (simp add: moves_def)

lemma moves_update:
  "off \<le> e \<Longrightarrow> off \<le> off' \<Longrightarrow> off' \<le> length buf \<Longrightarrow>
   moves buf off (buf[e := CHR 0x00]) off'"
proof -
  assume a: "off \<le> e" "off \<le> off'" "off' \<le> length buf"
  have "buf[e := CHR 0x00] ! i = buf ! i \<or> (off \<le> i \<and> buf[e := CHR 0x00] ! i = CHR 0x00)"
    if "i < length buf" for i
    using that a(1) by (cases "i = e") simp_all
  with a show ?thesis by (simp add: moves_def)
qed

lemma json_next_moves:
  assumes "json_next buf off = (t, buf', off')" and "off \<le> length buf"
  shows "moves buf off buf' off'"
  using assms
proof (cases rule: json_next_cases)
  case stay
  with assms(2) show ?thesis
    by (simp add: moves_def skip_whitespace_ge skip_whitespace_le)
next
  case (punct q ty)
  with assms(2) skip_whitespace_ge [of off buf] show ?thesis
    by (simp add: moves_def)
next
  case (string q e)
  with skip_whitespace_ge [of off buf] skip_until_ge [of "q + 1" buf "CHR 0x22"]
  have "off \<le> e" "off \<le> off'" "off' \<le> length buf" by simp_all
  then have "moves buf off (buf[e := CHR 0x00]) off'" by (rule moves_update)
  with string show ?thesis by simp
next
  case (unterminated q)
  with assms(2) show ?thesis by (simp add: moves_def)
next
  case (number q e)
  with assms(2) skip_whitespace_ge [of off buf] scan_digits_gt [of q buf]
    scan_digits_le [of q buf]
  show ?thesis by (simp add: moves_def)
next
  case (literal q n ty)
  with assms(2) skip_whitespace_ge [of off buf] show ?thesis
    by (simp add: moves_def)
next
  case (bad_literal q)
  with assms(2) show ?thesis by (simp add: moves_def)
qed

lemma json_next_advance:
  assumes "json_next buf off = (t, buf', off')" and "off \<le> length buf"
    and "tok_type t \<noteq> JSON_ERROR"
  shows "off < off'"
  using assms(1,2)
proof (cases rule: json_next_cases)
  case (punct q ty)
  with skip_whitespace_ge [of off buf] show ?thesis by simp
next
  case (string q e)
  with skip_whitespace_ge [of off buf] skip_until_ge [of "q + 1" buf "CHR 0x22"]
  show ?thesis by simp
next
  case (number q e)
  with skip_whitespace_ge [of off buf] scan_digits_gt [of q buf]
  show ?thesis by simp
next
  case (literal q n ty)
  with skip_whitespace_ge [of off buf] show ?thesis by auto
qed (use assms(3) in simp_all)

lemma json_next_at_end:
  "json_next buf (length buf) =
     (\<lparr>tok_off = length buf, tok_len = 0, tok_type = JSON_ERROR\<rparr>, buf, length buf)"
  by (simp add: json_next_def Let_def peek_def skip_whitespace_stop)

lemma parse_key_moves:
  assumes "parse_key buf off = (k, buf', off')" and "off \<le> length buf"
  shows "moves buf off buf' off'"
proof -
  obtain t b1 o1 where j1: "json_next buf off = (t, b1, o1)" by (cases "json_next buf off")
  obtain t2 b2 o2 where j2: "json_next b1 o1 = (t2, b2, o2)" by (cases "json_next b1 o1")
  from j1 assms(2) have m1: "moves buf off b1 o1" by (rule json_next_moves)
  from j2 moves_le [OF m1] have m2: "moves b1 o1 b2 o2" by (rule json_next_moves)
  note m12 = moves_trans [OF m1 m2]
  from assms(1) j1 j2 have "(buf' = b1 \<and> off' = length b1) \<or> (buf' = b2 \<and> off' = length b2)
      \<or> (buf' = b2 \<and> off' = o2)"
    by (auto simp: parse_key_def split: if_splits)
  with m1 m12 show ?thesis by (auto dest: moves_to_end)
qed

lemma parse_string_moves:
  assumes "parse_string buf off = (p, buf', off')" and "off \<le> length buf"
  shows "moves buf off buf' off'"
proof -
  obtain t b1 o1 where j1: "json_next buf off = (t, b1, o1)" by (cases "json_next buf off")
  from j1 assms(2) have m1: "moves buf off b1 o1" by (rule json_next_moves)
  from assms(1) j1 have "buf' = b1 \<and> (off' = length b1 \<or> off' = o1)"
    by (auto simp: parse_string_def split: if_splits)
  with m1 show ?thesis by (auto dest: moves_to_end)
qed

lemma parse_number_moves:
  assumes "parse_number buf off = (p, buf', off')" and "off \<le> length buf"
  shows "moves buf off buf' off'"
proof -
  obtain t b1 o1 where j1: "json_next buf off = (t, b1, o1)" by (cases "json_next buf off")
  from j1 assms(2) have m1: "moves buf off b1 o1" by (rule json_next_moves)
  from assms(1) j1 have "buf' = b1 \<and> (off' = length b1 \<or> off' = o1)"
    by (auto simp: parse_number_def split: if_splits)
  with m1 show ?thesis by (auto dest: moves_to_end)
qed

lemma parse_enum_moves:
  assumes "parse_enum buf off = (e, buf', off')" and "off \<le> length buf"
  shows "moves buf off buf' off'"
proof -
  obtain t b1 o1 where j1: "json_next buf off = (t, b1, o1)" by (cases "json_next buf off")
  from j1 assms(2) have m1: "moves buf off b1 o1" by (rule json_next_moves)
  from assms(1) j1 have "buf' = b1 \<and> (off' = length b1 \<or> off' = o1)"
    by (auto simp: parse_enum_def split: if_splits)
  with m1 show ?thesis by (auto dest: moves_to_end)
qed

lemma skip_value_moves:
  assumes "skip_value buf off = (buf', off')" and "off \<le> length buf"
  shows "moves buf off buf' off'"
proof -
  obtain t b1 o1 where j1: "json_next buf off = (t, b1, o1)" by (cases "json_next buf off")
  from j1 assms(2) have m1: "moves buf off b1 o1" by (rule json_next_moves)
  from assms(1) j1 have "buf' = b1 \<and> (off' = length b1 \<or> off' = o1)"
    by (auto simp: skip_value_def split: if_splits)
  with m1 show ?thesis by (auto dest: moves_to_end)
qed

text \<open>The last switch of every loop: a comma goes on, strictly after the cursor.\<close>

lemma json_next_comma:
  assumes "json_next buf off = (t, buf', off')" and "off \<le> length buf"
    and "tok_type t = JSON_COMMA \<or> tok_type t = JSON_OEND"
  shows "moves buf off buf' off' \<and> off < off'"
  using json_next_moves [OF assms(1,2)] json_next_advance [OF assms(1,2)] assms(3) by auto

subsection \<open>iterate\<close>

lemma iterate_Return: "body s = Some (Return r) \<Longrightarrow> iterate body s = Some r"
  by (subst iterate.simps) simp

lemma iterate_Next: "body s = Some (Next s') \<Longrightarrow> iterate body s = iterate body s'"
  by (subst iterate.simps) simp

lemma iterate_None: "body s = None \<Longrightarrow> iterate body s = None"
  by (subst iterate.simps) simp

text \<open>Partial correctness: an invariant of the body holds where the loop returns.\<close>

lemma iterate_rule:
  assumes "iterate body s = Some r" and "I s"
    and step: "\<And>s s'. I s \<Longrightarrow> body s = Some (Next s') \<Longrightarrow> I s'"
    and ret: "\<And>s r. I s \<Longrightarrow> body s = Some (Return r) \<Longrightarrow> Q r"
  shows "Q r"
proof -
  have "b = body \<longrightarrow> I s \<longrightarrow> Q r" if "iterate b s = Some r" for b s r
  proof (rule iterate.raw_induct [where P = "\<lambda>b s r. b = body \<longrightarrow> I s \<longrightarrow> Q r", OF _ that])
    fix it b s r
    assume IH: "\<And>b s r. it b s = Some r \<Longrightarrow> b = body \<longrightarrow> I s \<longrightarrow> Q r"
      and eq: "(case b s of None \<Rightarrow> None | Some (Return r) \<Rightarrow> Some r
                | Some (Next s') \<Rightarrow> it b s') = Some r"
    show "b = body \<longrightarrow> I s \<longrightarrow> Q r"
    proof (intro impI)
      assume b: "b = body" and i: "I s"
      show "Q r"
      proof (cases "body s")
        case None
        with eq b show ?thesis by simp
      next
        case (Some c)
        show ?thesis
        proof (cases c)
          case (Return r')
          with Some eq b have "r' = r" by simp
          with Some Return i show ?thesis by (auto intro: ret)
        next
          case (Next s')
          with Some eq b have "it body s' = Some r" by simp
          moreover from Some Next i have "I s'" by (auto intro: step)
          ultimately show ?thesis using IH by blast
        qed
      qed
    qed
  qed
  with assms(1,2) show ?thesis by blast
qed

text \<open>Termination: a body that never fails and decreases a measure gives a result.\<close>

lemma iterate_total:
  assumes "I s"
    and some: "\<And>s. I s \<Longrightarrow> body s \<noteq> None"
    and step: "\<And>s s'. I s \<Longrightarrow> body s = Some (Next s') \<Longrightarrow> I s' \<and> m s' < (m s :: nat)"
  shows "\<exists>r. iterate body s = Some r"
  using assms(1)
proof (induction "m s" arbitrary: s rule: less_induct)
  case less
  from some [OF less.prems] obtain c where c: "body s = Some c" by auto
  show ?case
  proof (cases c)
    case (Return r)
    with c show ?thesis by (auto simp: iterate_Return)
  next
    case (Next s')
    with c step [OF less.prems] have "I s'" "m s' < m s" by auto
    then have "\<exists>r. iterate body s' = Some r" by (rule less.hyps [rotated])
    with c Next show ?thesis by (simp add: iterate_Next)
  qed
qed

subsection \<open>The loop of a user object\<close>

lemma user_body_moves:
  assumes "user_body (buf, off, nm) = Some c" and "off \<le> length buf"
  shows "case c of
           Next (b, j, n) \<Rightarrow> moves buf off b j \<and> off < j
         | Return (Inr (b, j, n)) \<Rightarrow> moves buf off b j \<and> off < j
         | Return (Inl b) \<Rightarrow> moves buf off b (length b)"
proof -
  obtain k b1 o1 where pk: "parse_key buf off = (k, b1, o1)" by (cases "parse_key buf off")
  from pk assms(2) have m1: "moves buf off b1 o1" by (rule parse_key_moves)
  obtain b2 o2 n2 where v: "(if k = SYM_name
            then (case parse_string b1 o1 of (p, buf, off) \<Rightarrow> (buf, off, p))
            else (case skip_value b1 o1 of (buf, off) \<Rightarrow> (buf, off, nm))) = (b2, o2, n2)"
    by (metis prod_cases3)
  have m2: "moves b1 o1 b2 o2"
  proof (cases "k = SYM_name")
    case True
    with v obtain p where ps: "parse_string b1 o1 = (p, b2, o2)"
      by (cases "parse_string b1 o1") auto
    show ?thesis by (rule parse_string_moves [OF ps moves_le [OF m1]])
  next
    case False
    with v have sv: "skip_value b1 o1 = (b2, o2)"
      by (cases "skip_value b1 o1") auto
    show ?thesis by (rule skip_value_moves [OF sv moves_le [OF m1]])
  qed
  note m12 = moves_trans [OF m1 m2]
  obtain t b3 o3 where j: "json_next b2 o2 = (t, b3, o3)" by (cases "json_next b2 o2")
  from j moves_le [OF m12] have m3: "moves b2 o2 b3 o3" by (rule json_next_moves)
  note m123 = moves_trans [OF m12 m3]
  have adv: "o2 < o3" if "tok_type t = JSON_COMMA \<or> tok_type t = JSON_OEND"
    using json_next_comma [OF j moves_le [OF m12] that] by simp
  from assms(1) pk v j have c: "c = (if tok_type t = JSON_OEND then Return (Inr (b3, o3, n2))
        else if tok_type t = JSON_COMMA then Next (b3, o3, n2) else Return (Inl b3))"
    by (simp add: user_body_def split: if_splits)
  from moves_mono [OF m12] have "off \<le> o2" .
  with c m123 adv moves_to_end [OF m123] show ?thesis
    by (auto split: if_splits)
qed

lemma user_body_Some: "user_body s \<noteq> None"
  by (cases s) (auto simp: user_body_def split: prod.splits if_splits)

lemma user_loop_total:
  assumes "off \<le> length buf"
  shows "\<exists>r. iterate user_body (buf, off, nm) = Some r"
proof (rule iterate_total [where I = "\<lambda>(b, j, n). j \<le> length b"
      and m = "\<lambda>(b, j, n). length b - j"])
  show "case (buf, off, nm) of (b, j, n) \<Rightarrow> j \<le> length b" using assms by simp
next
  fix s :: user_vars
  show "user_body s \<noteq> None" by (rule user_body_Some)
next
  fix s s' :: user_vars
  assume i: "case s of (b, j, n) \<Rightarrow> j \<le> length b" and b: "user_body s = Some (Next s')"
  obtain b0 j0 n0 where s: "s = (b0, j0, n0)" by (cases s)
  obtain b1 j1 n1 where s': "s' = (b1, j1, n1)" by (cases s')
  from i s have "j0 \<le> length b0" by simp
  with b s s' user_body_moves [of b0 j0 n0 "Next (b1, j1, n1)"]
  have "moves b0 j0 b1 j1 \<and> j0 < j1" by simp
  then show "(case s' of (b, j, n) \<Rightarrow> j \<le> length b) \<and>
      (case s' of (b, j, n) \<Rightarrow> length b - j) < (case s of (b, j, n) \<Rightarrow> length b - j)"
    using s s' by (auto simp: moves_def)
qed

lemma user_loop_moves:
  assumes "iterate user_body (buf, off, nm) = Some r" and "off \<le> length buf"
  shows "case r of Inl b \<Rightarrow> moves buf off b (length b)
                 | Inr (b, j, n) \<Rightarrow> moves buf off b j \<and> off < j"
proof (rule iterate_rule [OF assms(1), where I = "\<lambda>(b, j, n). moves buf off b j"])
  show "case (buf, off, nm) of (b, j, n) \<Rightarrow> moves buf off b j"
    using assms(2) by (simp add: moves_refl)
next
  fix s s' :: user_vars
  assume i: "case s of (b, j, n) \<Rightarrow> moves buf off b j" and b: "user_body s = Some (Next s')"
  obtain b0 j0 n0 where s: "s = (b0, j0, n0)" by (cases s)
  obtain b1 j1 n1 where s': "s' = (b1, j1, n1)" by (cases s')
  from i s have m: "moves buf off b0 j0" by simp
  with b s s' user_body_moves [of b0 j0 n0 "Next (b1, j1, n1)"]
  have "moves b0 j0 b1 j1" by (simp add: moves_le)
  with m s' show "case s' of (b, j, n) \<Rightarrow> moves buf off b j"
    by (auto intro: moves_trans)
next
  fix s :: user_vars and r
  assume i: "case s of (b, j, n) \<Rightarrow> moves buf off b j" and b: "user_body s = Some (Return r)"
  obtain b0 j0 n0 where s: "s = (b0, j0, n0)" by (cases s)
  from i s have m: "moves buf off b0 j0" by simp
  show "case r of Inl b \<Rightarrow> moves buf off b (length b)
                | Inr (b, j, n) \<Rightarrow> moves buf off b j \<and> off < j"
  proof (cases r)
    case (Inl b1)
    with b s m user_body_moves [of b0 j0 n0 "Return (Inl b1)"]
    have "moves b0 j0 b1 (length b1)" by (simp add: moves_le)
    with m Inl show ?thesis by (auto intro: moves_trans)
  next
    case (Inr v)
    obtain b1 j1 n1 where v: "v = (b1, j1, n1)" by (cases v)
    with Inr b s m user_body_moves [of b0 j0 n0 "Return (Inr (b1, j1, n1))"]
    have "moves b0 j0 b1 j1 \<and> j0 < j1" by (simp add: moves_le)
    with m Inr v moves_mono [OF m] show ?thesis by (auto intro: moves_trans)
  qed
qed

subsection \<open>The digits of a rating\<close>

lemma scan_digits_ge: "r \<le> scan_digits buf r"
  by (simp add: scan_digits_eq)

lemma scan_digits_digit:
  assumes "r \<le> i" and "i < scan_digits buf r"
  shows "i < length buf \<and> is_digit (buf ! i)"
proof -
  let ?tw = "takeWhile is_digit (drop r buf)"
  from assms have j: "i - r < length ?tw" by (simp add: scan_digits_eq)
  then have "?tw ! (i - r) \<in> set ?tw" by (rule nth_mem)
  then have d: "is_digit (?tw ! (i - r))" by (rule set_takeWhileD [THEN conjunct2])
  from j have "?tw ! (i - r) = drop r buf ! (i - r)" by (rule takeWhile_nth)
  moreover from j length_takeWhile_le [of is_digit "drop r buf"]
  have l: "i - r < length (drop r buf)" by simp
  ultimately show ?thesis using d assms(1) by auto
qed

lemma scan_digits_stop:
  assumes "scan_digits buf r < length buf"
  shows "\<not> is_digit (buf ! scan_digits buf r)"
proof -
  let ?tw = "takeWhile is_digit (drop r buf)"
  from assms have "length ?tw < length (drop r buf)" by (simp add: scan_digits_eq)
  then have "\<not> is_digit (drop r buf ! length ?tw)" by (rule nth_length_takeWhile)
  with assms show ?thesis by (simp add: scan_digits_eq)
qed

lemma scan_digits_unique:
  assumes "r \<le> e" and "e \<le> length buf"
    and "\<And>i. r \<le> i \<Longrightarrow> i < e \<Longrightarrow> is_digit (buf ! i)"
    and "e < length buf \<Longrightarrow> \<not> is_digit (buf ! e)"
  shows "scan_digits buf r = e"
proof -
  have "takeWhile is_digit (drop r buf) = take (e - r) (drop r buf)"
  proof (rule takeWhile_eq_take_P_nth)
    fix i assume "i < e - r" "i < length (drop r buf)"
    with assms(3) [of "r + i"] show "is_digit (drop r buf ! i)" by simp
  next
    assume "e - r < length (drop r buf)"
    with assms(1,4) show "\<not> is_digit (drop r buf ! (e - r))" by simp
  qed
  with assms(1,2) show ?thesis by (simp add: scan_digits_eq)
qed

lemma moves_nth_below:
  assumes "moves buf off buf' off'" and "i < off"
  shows "buf' ! i = buf ! i"
proof -
  from assms have "i < length buf" by (simp add: moves_def)
  with assms(1) have "buf' ! i = buf ! i \<or> (off \<le> i \<and> buf' ! i = CHR 0x00)"
    unfolding moves_def by blast
  with assms(2) show ?thesis by simp
qed

lemma moves_nth:
  assumes "moves buf off buf' off'" and "i < length buf"
  shows "buf' ! i = buf ! i \<or> buf' ! i = CHR 0x00"
  using assms unfolding moves_def by blast

lemma scan_digits_moves:
  assumes "moves buf off buf' off'" and "scan_digits buf r \<le> off"
  shows "scan_digits buf' r = scan_digits buf r"
proof (rule scan_digits_unique)
  show "r \<le> scan_digits buf r" by (rule scan_digits_ge)
  from assms show "scan_digits buf r \<le> length buf'" by (simp add: moves_def)
next
  fix i assume i: "r \<le> i" "i < scan_digits buf r"
  then have d: "i < length buf \<and> is_digit (buf ! i)" by (rule scan_digits_digit)
  from assms(2) i have "i < off" by simp
  with assms(1) have "buf' ! i = buf ! i" by (rule moves_nth_below)
  with d show "is_digit (buf' ! i)" by simp
next
  assume "scan_digits buf r < length buf'"
  with assms have l: "scan_digits buf r < length buf" by (simp add: moves_def)
  then have "\<not> is_digit (buf ! scan_digits buf r)" by (rule scan_digits_stop)
  moreover from assms(1) l have "buf' ! scan_digits buf r = buf ! scan_digits buf r \<or>
      buf' ! scan_digits buf r = CHR 0x00"
    by (rule moves_nth)
  ultimately show "\<not> is_digit (buf' ! scan_digits buf r)" by auto
qed

lemma digits_end_scan:
  "digits_end buf r =
     (if scan_digits buf r < length buf then Some (scan_digits buf r) else None)"
  by (simp add: digits_end_eq scan_digits_eq)

lemma rating_head_mid: "rating_head lo buf off rt \<Longrightarrow> rating_mid lo buf off rt"
  by (auto simp: rating_head_def rating_mid_def split: option.splits)

lemma rating_head_moves:
  assumes "rating_head lo buf off rt" and "moves buf off buf' off'"
  shows "rating_head lo buf' off' rt"
proof (cases rt)
  case None
  then show ?thesis by (simp add: rating_head_def)
next
  case (Some r)
  with assms(1) have h: "lo \<le> r" "r < scan_digits buf r" "scan_digits buf r < off"
      "delim (buf ! scan_digits buf r)"
    by (simp_all add: rating_head_def)
  from h(3) have "scan_digits buf r \<le> off" by simp
  with assms(2) have e: "scan_digits buf' r = scan_digits buf r" by (rule scan_digits_moves)
  from assms(2) h(3) have "buf' ! scan_digits buf r = buf ! scan_digits buf r"
    by (rule moves_nth_below)
  with h e moves_mono [OF assms(2)] Some show ?thesis by (simp add: rating_head_def)
qed

lemma moves_weaken: "moves buf off buf' off' \<Longrightarrow> lo \<le> off \<Longrightarrow> moves buf lo buf' off'"
  by (auto simp: moves_def)

lemma moves_write:
  assumes "moves buf lo b j" and "lo \<le> e"
  shows "moves buf lo (b[e := CHR 0x00]) j"
proof -
  have "b[e := CHR 0x00] ! i = buf ! i \<or> (lo \<le> i \<and> b[e := CHR 0x00] ! i = CHR 0x00)"
    if "i < length buf" for i
  proof (cases "i = e")
    case True
    with that assms show ?thesis by (simp add: moves_def)
  next
    case False
    with that assms(1) show ?thesis by (simp add: moves_def)
  qed
  with assms(1) show ?thesis by (simp add: moves_def)
qed

lemma skip_whitespace_ws:
  assumes "off \<le> i" and "i < skip_whitespace buf off"
  shows "i < length buf \<and> is_ws (buf ! i)"
proof -
  let ?tw = "takeWhile is_ws (drop off buf)"
  from assms have j: "i - off < length ?tw" by (simp add: skip_whitespace_eq)
  then have "?tw ! (i - off) \<in> set ?tw" by (rule nth_mem)
  then have d: "is_ws (?tw ! (i - off))" by (rule set_takeWhileD [THEN conjunct2])
  from j have "?tw ! (i - off) = drop off buf ! (i - off)" by (rule takeWhile_nth)
  moreover from j length_takeWhile_le [of is_ws "drop off buf"]
  have l: "i - off < length (drop off buf)" by simp
  ultimately show ?thesis using d assms(1) by auto
qed

lemma json_next_delim:
  assumes "json_next buf off = (t, buf', off')" and "off \<le> length buf"
    and ty: "tok_type t = JSON_COMMA \<or> tok_type t = JSON_OEND"
  shows "buf' = buf \<and> off < off' \<and> off' \<le> length buf \<and> delim (buf ! off)"
  using assms(1,2)
proof (cases rule: json_next_cases)
  case (punct q ty')
  with ty have "buf ! q = CHR '','' \<or> buf ! q = CHR ''}''"
    by (auto simp: punct_char_def split: if_splits)
  then have dq: "delim (buf ! q)" by (auto simp: delim_def)
  have "delim (buf ! off)"
  proof (cases "q = off")
    case True
    with dq show ?thesis by simp
  next
    case False
    with punct(1) skip_whitespace_ge [of off buf] have "off < skip_whitespace buf off" by simp
    with skip_whitespace_ws [of off off buf] show ?thesis by (simp add: delim_def)
  qed
  with punct skip_whitespace_ge [of off buf] show ?thesis by simp
next
  case (literal q n ty')
  with ty show ?thesis by auto
qed (use ty in simp_all)

lemma rating_mid_comma:
  assumes "rating_mid lo buf off rt" and "json_next buf off = (t, buf', off')"
    and "off \<le> length buf" and "tok_type t = JSON_COMMA \<or> tok_type t = JSON_OEND"
  shows "rating_head lo buf' off' rt"
proof (cases rt)
  case None
  then show ?thesis by (simp add: rating_head_def)
next
  case (Some r)
  from json_next_delim [OF assms(2-4)]
  have d: "buf' = buf" "off < off'" "delim (buf ! off)" by simp_all
  from assms(1) Some have m: "lo \<le> r" "r < scan_digits buf r" "scan_digits buf r \<le> off"
      "scan_digits buf r < off \<longrightarrow> delim (buf ! scan_digits buf r)"
    by (simp_all add: rating_mid_def)
  from m(3,4) d(3) have "delim (buf ! scan_digits buf r)"
    by (cases "scan_digits buf r = off") simp_all
  with m d Some show ?thesis by (simp add: rating_head_def)
qed

lemma parse_number_rating:
  assumes "parse_number buf off = (p, buf', off')" and "off \<le> length buf" and "lo \<le> off"
  shows "rating_mid lo buf' off' p"
proof -
  obtain t b1 o1 where j: "json_next buf off = (t, b1, o1)" by (cases "json_next buf off")
  show ?thesis
  proof (cases "tok_type t = JSON_NUMBER")
    case False
    with assms(1) j show ?thesis by (simp add: parse_number_def rating_mid_def)
  next
    case True
    with assms(1) j have r: "p = Some (tok_off t)" "buf' = b1" "off' = o1"
      by (simp_all add: parse_number_def)
    from j assms(2) show ?thesis
    proof (cases rule: json_next_cases)
      case (number q e)
      with r assms(3) skip_whitespace_ge [of off buf] scan_digits_gt [of q buf]
      show ?thesis by (simp add: rating_mid_def)
    next
      case (punct q ty)
      with True show ?thesis by (auto simp: punct_char_def split: if_splits)
    next
      case (literal q n ty)
      with True show ?thesis by auto
    qed (use True in simp_all)
  qed
qed

lemma player_field_step:
  assumes le: "off \<le> length buf" and h: "rating_head lo buf off rt" and lo: "lo \<le> off"
  shows "\<exists>c. player_field k (buf, off, idx, rt, nm) = Some c \<and>
     (case c of
        Return b \<Rightarrow> moves buf off b (length b)
      | Next (b, j, idx', rt', nm') \<Rightarrow> moves buf off b j \<and> rating_mid lo b j rt')"
proof -
  consider (color) "k = SYM_color" | (user) "k \<noteq> SYM_color" "k = SYM_user"
    | (rating) "k \<noteq> SYM_color" "k \<noteq> SYM_user" "k = SYM_rating"
    | (other) "k \<noteq> SYM_color" "k \<noteq> SYM_user" "k \<noteq> SYM_rating"
    by blast
  then show ?thesis
  proof cases
    case color
    obtain e b j where pe: "parse_enum buf off = (e, b, j)" by (cases "parse_enum buf off")
    from pe le have m: "moves buf off b j" by (rule parse_enum_moves)
    have "rating_mid lo b j rt" by (rule rating_head_mid [OF rating_head_moves [OF h m]])
    with color pe m show ?thesis by (simp add: player_field_def)
  next
    case user
    obtain t b j where jn: "json_next buf off = (t, b, j)" by (cases "json_next buf off")
    from jn le have m: "moves buf off b j" by (rule json_next_moves)
    show ?thesis
    proof (cases "tok_type t = JSON_OBEG")
      case False
      with user jn moves_to_end [OF m] show ?thesis by (simp add: player_field_def)
    next
      case True
      from user_loop_total [OF moves_le [OF m]] obtain r
        where it: "iterate user_body (b, j, nm) = Some r" by blast
      note um = user_loop_moves [OF it moves_le [OF m]]
      show ?thesis
      proof (cases r)
        case (Inl b')
        with um have "moves b j b' (length b')" by simp
        with m have "moves buf off b' (length b')" by (rule moves_trans)
        with user jn True it Inl show ?thesis by (simp add: player_field_def)
      next
        case (Inr v)
        obtain b' j' nm' where v: "v = (b', j', nm')" by (cases v)
        with um Inr have "moves b j b' j'" by simp
        with m have m': "moves buf off b' j'" by (rule moves_trans)
        have "rating_mid lo b' j' rt" by (rule rating_head_mid [OF rating_head_moves [OF h m']])
        with user jn True it Inr v m' show ?thesis by (simp add: player_field_def)
      qed
    qed
  next
    case rating
    obtain p b j where pn: "parse_number buf off = (p, b, j)" by (cases "parse_number buf off")
    from pn le have m: "moves buf off b j" by (rule parse_number_moves)
    from pn le lo have "rating_mid lo b j p" by (rule parse_number_rating)
    with rating pn m show ?thesis by (simp add: player_field_def)
  next
    case other
    obtain b j where sv: "skip_value buf off = (b, j)" by (cases "skip_value buf off")
    from sv le have m: "moves buf off b j" by (rule skip_value_moves)
    have "rating_mid lo b j rt" by (rule rating_head_mid [OF rating_head_moves [OF h m]])
    with other sv m show ?thesis by (simp add: player_field_def)
  qed
qed

text \<open>
  The write of \<open>terminate_number\<close> at the end of a player object: the digits of the rating
  end before the cursor, inside the buffer.
\<close>

lemma moves_compose:
  assumes "moves a x b y" and "moves b x' c z" and "x \<le> x'"
  shows "moves a x c z"
proof -
  have "c ! i = a ! i \<or> (x \<le> i \<and> c ! i = CHR 0x00)" if "i < length a" for i
  proof -
    from that assms(1) have 1: "b ! i = a ! i \<or> (x \<le> i \<and> b ! i = CHR 0x00)"
      unfolding moves_def by blast
    from that assms(1,2) have 2: "c ! i = b ! i \<or> (x' \<le> i \<and> c ! i = CHR 0x00)"
      unfolding moves_def by simp
    from 1 2 assms(3) show ?thesis by auto
  qed
  moreover from assms have "length c = length a" "x \<le> z" "z \<le> length a"
    by (simp_all add: moves_def)
  ultimately show ?thesis by (simp add: moves_def)
qed

lemma terminate_number_head:
  assumes "rating_head lo buf off rt" and "off \<le> length buf" and "lo \<le> off"
  shows "\<exists>b. terminate_number buf rt = Some b \<and> moves buf lo b off"
proof (cases rt)
  case None
  with assms(2,3) show ?thesis
    by (simp add: terminate_number_def moves_def)
next
  case (Some r)
  with assms(1) have h: "lo \<le> r" "r < scan_digits buf r" "scan_digits buf r < off"
    by (simp_all add: rating_head_def)
  with assms(2) have "terminate_number buf rt = Some (buf[scan_digits buf r := CHR 0x00])"
    using Some by (simp add: terminate_number_def digits_end_scan)
  moreover have "moves buf lo (buf[scan_digits buf r := CHR 0x00]) off"
    using h assms(2) by (intro moves_update) simp_all
  ultimately show ?thesis by blast
qed

lemma player_body_step:
  assumes le: "off \<le> length buf" and h: "rating_head lo buf off rt" and lo: "lo \<le> off"
  shows "\<exists>c. player_body p (buf, off, idx, rt, nm) = Some c \<and>
     (case c of
        Return (b, j, p') \<Rightarrow> moves buf lo b j
      | Next (b, j, idx', rt', nm') \<Rightarrow>
          moves buf off b j \<and> off < j \<and> rating_head lo b j rt')"
proof -
  obtain k b1 o1 where pk: "parse_key buf off = (k, b1, o1)" by (cases "parse_key buf off")
  from pk le have m1: "moves buf off b1 o1" by (rule parse_key_moves)
  from h m1 have h1: "rating_head lo b1 o1 rt" by (rule rating_head_moves)
  from lo moves_mono [OF m1] have lo1: "lo \<le> o1" by simp
  from player_field_step [OF moves_le [OF m1] h1 lo1, of k idx nm]
  obtain c1 where pf: "player_field k (b1, o1, idx, rt, nm) = Some c1"
    and c1: "case c1 of Return b \<Rightarrow> moves b1 o1 b (length b)
       | Next (b, j, idx', rt', nm') \<Rightarrow> moves b1 o1 b j \<and> rating_mid lo b j rt'"
    by blast
  show ?thesis
  proof (cases c1)
    case (Return b2)
    with c1 have "moves b1 o1 b2 (length b2)" by simp
    with m1 have "moves buf off b2 (length b2)" by (rule moves_trans)
    then have "moves buf lo b2 (length b2)" using lo by (rule moves_weaken)
    with pk pf Return show ?thesis by (simp add: player_body_def)
  next
    case (Next v)
    obtain b2 o2 idx2 rt2 nm2 where v: "v = (b2, o2, idx2, rt2, nm2)" by (cases v)
    with c1 Next have m2: "moves b1 o1 b2 o2" and r2: "rating_mid lo b2 o2 rt2" by simp_all
    note m12 = moves_trans [OF m1 m2]
    obtain t b3 o3 where jn: "json_next b2 o2 = (t, b3, o3)" by (cases "json_next b2 o2")
    from jn moves_le [OF m12] have m3: "moves b2 o2 b3 o3" by (rule json_next_moves)
    note m123 = moves_trans [OF m12 m3]
    note body = pk pf Next v jn
    consider (oend) "tok_type t = JSON_OEND" | (comma) "tok_type t \<noteq> JSON_OEND" "tok_type t = JSON_COMMA"
      | (bad) "tok_type t \<noteq> JSON_OEND" "tok_type t \<noteq> JSON_COMMA"
      by blast
    then show ?thesis
    proof cases
      case oend
      show ?thesis
      proof (cases idx2)
        case None
        from moves_to_end [OF m123] lo have "moves buf lo b3 (length b3)" by (rule moves_weaken)
        with body oend None show ?thesis by (simp add: player_body_def)
      next
        case (Some i)
        from oend have "tok_type t = JSON_COMMA \<or> tok_type t = JSON_OEND" by simp
        with r2 jn moves_le [OF m12] have h3: "rating_head lo b3 o3 rt2"
          by (rule rating_mid_comma)
        from m123 lo have ml: "moves buf lo b3 o3" by (rule moves_weaken)
        from terminate_number_head [OF h3 moves_le [OF m123] moves_mono [OF ml]]
        obtain b4 where tn: "terminate_number b3 rt2 = Some b4" and m4: "moves b3 lo b4 o3"
          by blast
        from ml m4 have "moves buf lo b4 o3" by (rule moves_compose) simp
        with body oend Some tn show ?thesis by (simp add: player_body_def)
      qed
    next
      case comma
      from comma have ty: "tok_type t = JSON_COMMA \<or> tok_type t = JSON_OEND" by simp
      with r2 jn moves_le [OF m12] have "rating_head lo b3 o3 rt2"
        by (rule rating_mid_comma)
      moreover from json_next_comma [OF jn moves_le [OF m12] ty] moves_mono [OF m12]
      have "off < o3" by simp
      ultimately show ?thesis using body comma m123 by (simp add: player_body_def)
    next
      case bad
      from moves_to_end [OF m123] lo have "moves buf lo b3 (length b3)" by (rule moves_weaken)
      with body bad show ?thesis by (simp add: player_body_def)
    qed
  qed
qed

subsection \<open>parse_player\<close>

lemma player_loop_result:
  assumes "j0 \<le> length b0"
  shows "\<exists>b j p'. iterate (player_body p) (b0, j0, None, None, None) = Some (b, j, p') \<and>
           moves b0 j0 b j"
proof -
  let ?I = "\<lambda>(b, j, idx, rt, nm). moves b0 j0 b j \<and> rating_head j0 b j rt"
  let ?m = "\<lambda>(b, j, idx, rt, nm). length b - j"
  have init: "?I (b0, j0, None, None, None)"
    using assms by (simp add: moves_refl rating_head_def)
  have step: "?I s' \<and> ?m s' < ?m s" if i: "?I s" and b: "player_body p s = Some (Next s')"
    for s s' :: player_vars
  proof -
    obtain b1 j1 idx1 rt1 nm1 where s: "s = (b1, j1, idx1, rt1, nm1)" by (cases s)
    obtain b2 j2 idx2 rt2 nm2 where s': "s' = (b2, j2, idx2, rt2, nm2)" by (cases s')
    from i s have m: "moves b0 j0 b1 j1" and h: "rating_head j0 b1 j1 rt1" by simp_all
    from player_body_step [OF moves_le [OF m] h moves_mono [OF m], of p idx1 nm1] b s s'
    have n: "moves b1 j1 b2 j2" "j1 < j2" "rating_head j0 b2 j2 rt2" by auto
    from m n(1) have "moves b0 j0 b2 j2" by (rule moves_trans)
    moreover from n(1,2) have "length b2 - j2 < length b1 - j1" by (auto simp: moves_def)
    ultimately show ?thesis using s s' n(3) by simp
  qed
  have some: "player_body p s \<noteq> None" if i: "?I s" for s :: player_vars
  proof -
    obtain b1 j1 idx1 rt1 nm1 where s: "s = (b1, j1, idx1, rt1, nm1)" by (cases s)
    from i s have m: "moves b0 j0 b1 j1" and h: "rating_head j0 b1 j1 rt1" by simp_all
    from player_body_step [OF moves_le [OF m] h moves_mono [OF m], of p idx1 nm1] s
    show ?thesis by auto
  qed
  have "\<exists>r. iterate (player_body p) (b0, j0, None, None, None) = Some r"
  proof (rule iterate_total [where I = ?I and m = ?m])
    show "?I (b0, j0, None, None, None)" by (rule init)
  next
    fix s :: player_vars assume "?I s"
    then show "player_body p s \<noteq> None" by (rule some)
  next
    fix s s' :: player_vars assume "?I s" "player_body p s = Some (Next s')"
    then show "?I s' \<and> ?m s' < ?m s" by (rule step)
  qed
  then obtain r where it: "iterate (player_body p) (b0, j0, None, None, None) = Some r"
    by blast
  have "case r of (b, j, p') \<Rightarrow> moves b0 j0 b j"
  proof (rule iterate_rule [OF it, where I = ?I])
    show "?I (b0, j0, None, None, None)" by (rule init)
  next
    fix s s' :: player_vars
    assume "?I s" "player_body p s = Some (Next s')"
    then show "?I s'" using step by blast
  next
    fix s :: player_vars and r
    assume i: "?I s" and b: "player_body p s = Some (Return r)"
    obtain b1 j1 idx1 rt1 nm1 where s: "s = (b1, j1, idx1, rt1, nm1)" by (cases s)
    obtain b2 j2 p2 where r: "r = (b2, j2, p2)" by (cases r)
    from i s have m: "moves b0 j0 b1 j1" and h: "rating_head j0 b1 j1 rt1" by simp_all
    from player_body_step [OF moves_le [OF m] h moves_mono [OF m], of p idx1 nm1] b s r
    have "moves b1 j0 b2 j2" by auto
    with m have "moves b0 j0 b2 j2" by (rule moves_compose) simp
    with r show "case r of (b, j, p') \<Rightarrow> moves b0 j0 b j" by simp
  qed
  with it show ?thesis by (cases r) auto
qed

lemma parse_player_result:
  assumes "off \<le> length buf"
  shows "\<exists>b j p'. parse_player buf off p = Some (b, j, p') \<and> moves buf off b j"
proof -
  obtain t b0 j0 where jn: "json_next buf off = (t, b0, j0)" by (cases "json_next buf off")
  from jn assms have m: "moves buf off b0 j0" by (rule json_next_moves)
  show ?thesis
  proof (cases "tok_type t = JSON_OBEG")
    case False
    with jn moves_to_end [OF m] show ?thesis by (simp add: parse_player_def)
  next
    case True
    from player_loop_result [OF moves_le [OF m], of p] obtain b j p'
      where "iterate (player_body p) (b0, j0, None, None, None) = Some (b, j, p')"
        and "moves b0 j0 b j"
      by blast
    with jn True moves_trans [OF m] show ?thesis by (simp add: parse_player_def)
  qed
qed

subsection \<open>parse_data\<close>

lemma data_field_step:
  assumes le: "off \<le> length buf"
  shows "\<exists>x. data_field k (buf, off, c) = Some x \<and>
     (case x of
        Return (b, c') \<Rightarrow> moves buf off b (length b)
      | Next (b, j, c') \<Rightarrow> moves buf off b j)"
proof -
  consider (fen) "k = SYM_fen" | (players) "k \<noteq> SYM_fen" "k = SYM_players"
    | (other) "k \<noteq> SYM_fen" "k \<noteq> SYM_players"
    by blast
  then show ?thesis
  proof cases
    case fen
    obtain p b j where ps: "parse_string buf off = (p, b, j)" by (cases "parse_string buf off")
    from ps le have "moves buf off b j" by (rule parse_string_moves)
    with fen ps show ?thesis by (simp add: data_field_def)
  next
    case other
    obtain b j where sv: "skip_value buf off = (b, j)" by (cases "skip_value buf off")
    from sv le have "moves buf off b j" by (rule skip_value_moves)
    with other sv show ?thesis by (simp add: data_field_def)
  next
    case players
    obtain t1 b1 j1 where n1: "json_next buf off = (t1, b1, j1)" by (cases "json_next buf off")
    from n1 le have m1: "moves buf off b1 j1" by (rule json_next_moves)
    show ?thesis
    proof (cases "tok_type t1 = JSON_ABEG")
      case False
      with players n1 moves_to_end [OF m1] show ?thesis by (simp add: data_field_def)
    next
      case abeg: True
      from parse_player_result [OF moves_le [OF m1], of "players c"] obtain b2 j2 ps2
        where p2: "parse_player b1 j1 (players c) = Some (b2, j2, ps2)"
          and m2: "moves b1 j1 b2 j2"
        by blast
      note m12 = moves_trans [OF m1 m2]
      obtain t3 b3 j3 where n3: "json_next b2 j2 = (t3, b3, j3)" by (cases "json_next b2 j2")
      from n3 moves_le [OF m12] have m3: "moves b2 j2 b3 j3" by (rule json_next_moves)
      note m123 = moves_trans [OF m12 m3]
      show ?thesis
      proof (cases "tok_type t3 = JSON_COMMA")
        case False
        with players n1 abeg p2 n3 moves_to_end [OF m123] show ?thesis
          by (simp add: data_field_def)
      next
        case comma: True
        from parse_player_result [OF moves_le [OF m123], of ps2] obtain b4 j4 ps4
          where p4: "parse_player b3 j3 ps2 = Some (b4, j4, ps4)"
            and m4: "moves b3 j3 b4 j4"
          by blast
        note m1234 = moves_trans [OF m123 m4]
        obtain t5 b5 j5 where n5: "json_next b4 j4 = (t5, b5, j5)" by (cases "json_next b4 j4")
        from n5 moves_le [OF m1234] have m5: "moves b4 j4 b5 j5" by (rule json_next_moves)
        note m12345 = moves_trans [OF m1234 m5]
        from players n1 abeg p2 n3 comma p4 n5 m12345 moves_to_end [OF m12345]
        show ?thesis by (simp add: data_field_def)
      qed
    qed
  qed
qed

text \<open>The last switch of the loops of \<open>parse_data\<close> and \<open>chunk_parse\<close>.\<close>

lemma data_body_step:
  assumes le: "off \<le> length buf"
  shows "\<exists>x. data_body (buf, off, c) = Some x \<and>
     (case x of
        Return (b, j, c') \<Rightarrow> moves buf off b j
      | Next (b, j, c') \<Rightarrow> moves buf off b j \<and> off < j)"
proof -
  obtain k b1 j1 where pk: "parse_key buf off = (k, b1, j1)" by (cases "parse_key buf off")
  from pk le have m1: "moves buf off b1 j1" by (rule parse_key_moves)
  from data_field_step [OF moves_le [OF m1], of k c] obtain x1
    where df: "data_field k (b1, j1, c) = Some x1"
      and x1: "case x1 of Return (b, c') \<Rightarrow> moves b1 j1 b (length b)
                 | Next (b, j, c') \<Rightarrow> moves b1 j1 b j"
    by blast
  show ?thesis
  proof (cases x1)
    case (Return v)
    obtain b2 c2 where v: "v = (b2, c2)" by (cases v)
    with x1 Return have "moves b1 j1 b2 (length b2)" by simp
    with m1 have "moves buf off b2 (length b2)" by (rule moves_trans)
    with pk df Return v show ?thesis by (simp add: data_body_def)
  next
    case (Next v)
    obtain b2 j2 c2 where v: "v = (b2, j2, c2)" by (cases v)
    with x1 Next have m2: "moves b1 j1 b2 j2" by simp
    note m12 = moves_trans [OF m1 m2]
    obtain t b3 j3 where jn: "json_next b2 j2 = (t, b3, j3)" by (cases "json_next b2 j2")
    from jn moves_le [OF m12] have m3: "moves b2 j2 b3 j3" by (rule json_next_moves)
    note m123 = moves_trans [OF m12 m3]
    have adv: "off < j3" if "tok_type t = JSON_COMMA \<or> tok_type t = JSON_OEND"
      using json_next_comma [OF jn moves_le [OF m12] that] moves_mono [OF m12] by simp
    from pk df Next v jn m123 adv moves_to_end [OF m123] show ?thesis
      by (simp add: data_body_def)
  qed
qed

lemma parse_data_result:
  assumes "off \<le> length buf"
  shows "\<exists>b j c'. parse_data buf off c = Some (b, j, c') \<and> moves buf off b j"
proof -
  obtain t b0 j0 where jn: "json_next buf off = (t, b0, j0)" by (cases "json_next buf off")
  from jn assms have m: "moves buf off b0 j0" by (rule json_next_moves)
  show ?thesis
  proof (cases "tok_type t = JSON_OBEG")
    case False
    with jn moves_to_end [OF m] show ?thesis by (simp add: parse_data_def)
  next
    case True
    let ?I = "\<lambda>(b, j, c'). moves b0 j0 b j"
    let ?m = "\<lambda>(b, j, c'). length b - j"
    have init: "?I (b0, j0, c)" using moves_le [OF m] by (simp add: moves_refl)
    have step: "?I s' \<and> ?m s' < ?m s" if i: "?I s" and b: "data_body s = Some (Next s')"
      for s s' :: walk_vars
    proof -
      obtain b1 j1 c1 where s: "s = (b1, j1, c1)" by (cases s)
      obtain b2 j2 c2 where s': "s' = (b2, j2, c2)" by (cases s')
      from i s have m1: "moves b0 j0 b1 j1" by simp
      from data_body_step [OF moves_le [OF m1], of c1] b s s'
      have n: "moves b1 j1 b2 j2" "j1 < j2" by auto
      from m1 n(1) have "moves b0 j0 b2 j2" by (rule moves_trans)
      moreover from n have "length b2 - j2 < length b1 - j1" by (auto simp: moves_def)
      ultimately show ?thesis using s s' by simp
    qed
    have some: "data_body s \<noteq> None" if i: "?I s" for s :: walk_vars
    proof -
      obtain b1 j1 c1 where s: "s = (b1, j1, c1)" by (cases s)
      from i s have m1: "moves b0 j0 b1 j1" by simp
      from data_body_step [OF moves_le [OF m1], of c1] s show ?thesis by auto
    qed
    have "\<exists>r. iterate data_body (b0, j0, c) = Some r"
    proof (rule iterate_total [where I = ?I and m = ?m])
      show "?I (b0, j0, c)" by (rule init)
    next
      fix s :: walk_vars assume "?I s"
      then show "data_body s \<noteq> None" by (rule some)
    next
      fix s s' :: walk_vars assume "?I s" "data_body s = Some (Next s')"
      then show "?I s' \<and> ?m s' < ?m s" by (rule step)
    qed
    then obtain r where it: "iterate data_body (b0, j0, c) = Some r" by blast
    have "case r of (b, j, c') \<Rightarrow> moves b0 j0 b j"
    proof (rule iterate_rule [OF it, where I = ?I])
      show "?I (b0, j0, c)" by (rule init)
    next
      fix s s' :: walk_vars
      assume "?I s" "data_body s = Some (Next s')"
      then show "?I s'" using step by blast
    next
      fix s r :: walk_vars
      assume i: "?I s" and b: "data_body s = Some (Return r)"
      obtain b1 j1 c1 where s: "s = (b1, j1, c1)" by (cases s)
      obtain b2 j2 c2 where r: "r = (b2, j2, c2)" by (cases r)
      from i s have m1: "moves b0 j0 b1 j1" by simp
      from data_body_step [OF moves_le [OF m1], of c1] b s r
      have "moves b1 j1 b2 j2" by auto
      with m1 have "moves b0 j0 b2 j2" by (rule moves_trans)
      with r show "case r of (b, j, c') \<Rightarrow> moves b0 j0 b j" by simp
    qed
    with it jn True moves_trans [OF m] show ?thesis
      by (cases r) (auto simp: parse_data_def)
  qed
qed

subsection \<open>chunk_parse\<close>

lemma chunk_field_step:
  assumes le: "off \<le> length buf"
  shows "\<exists>x. chunk_field k (buf, off, c) = Some x \<and>
     (case x of
        Return (b, c') \<Rightarrow> moves buf off b (length b)
      | Next (b, j, c') \<Rightarrow> moves buf off b j)"
proof -
  consider (t) "k = SYM_t" | (d) "k \<noteq> SYM_t" "k = SYM_d" | (other) "k \<noteq> SYM_t" "k \<noteq> SYM_d"
    by blast
  then show ?thesis
  proof cases
    case t
    obtain e b j where pe: "parse_enum buf off = (e, b, j)" by (cases "parse_enum buf off")
    from pe le have m: "moves buf off b j" by (rule parse_enum_moves)
    with t pe moves_to_end [OF m] show ?thesis by (simp add: chunk_field_def)
  next
    case d
    from parse_data_result [OF le, of c] obtain b j c'
      where "parse_data buf off c = Some (b, j, c')" and "moves buf off b j"
      by blast
    with d show ?thesis by (simp add: chunk_field_def)
  next
    case other
    obtain b j where sv: "skip_value buf off = (b, j)" by (cases "skip_value buf off")
    from sv le have "moves buf off b j" by (rule skip_value_moves)
    with other sv show ?thesis by (simp add: chunk_field_def)
  qed
qed

lemma chunk_body_step:
  assumes le: "off \<le> length buf"
  shows "\<exists>x. chunk_body (buf, off, c) = Some x \<and>
     (case x of
        Return (r, b, c') \<Rightarrow> (r = 0 \<or> r = 1) \<and> moves buf off b (length b)
      | Next (b, j, c') \<Rightarrow> moves buf off b j \<and> off < j)"
proof -
  obtain k b1 j1 where pk: "parse_key buf off = (k, b1, j1)" by (cases "parse_key buf off")
  from pk le have m1: "moves buf off b1 j1" by (rule parse_key_moves)
  from chunk_field_step [OF moves_le [OF m1], of k c] obtain x1
    where cf: "chunk_field k (b1, j1, c) = Some x1"
      and x1: "case x1 of Return (b, c') \<Rightarrow> moves b1 j1 b (length b)
                 | Next (b, j, c') \<Rightarrow> moves b1 j1 b j"
    by blast
  show ?thesis
  proof (cases x1)
    case (Return v)
    obtain b2 c2 where v: "v = (b2, c2)" by (cases v)
    with x1 Return have "moves b1 j1 b2 (length b2)" by simp
    with m1 have "moves buf off b2 (length b2)" by (rule moves_trans)
    with pk cf Return v show ?thesis by (simp add: chunk_body_def)
  next
    case (Next v)
    obtain b2 j2 c2 where v: "v = (b2, j2, c2)" by (cases v)
    with x1 Next have m2: "moves b1 j1 b2 j2" by simp
    note m12 = moves_trans [OF m1 m2]
    obtain t b3 j3 where jn: "json_next b2 j2 = (t, b3, j3)" by (cases "json_next b2 j2")
    from jn moves_le [OF m12] have m3: "moves b2 j2 b3 j3" by (rule json_next_moves)
    note m123 = moves_trans [OF m12 m3]
    have adv: "off < j3" if "tok_type t = JSON_COMMA \<or> tok_type t = JSON_OEND"
      using json_next_comma [OF jn moves_le [OF m12] that] moves_mono [OF m12] by simp
    from pk cf Next v jn m123 adv moves_to_end [OF m123] show ?thesis
      by (simp add: chunk_body_def)
  qed
qed

lemma chunk_loop_result:
  assumes "j0 \<le> length b0"
  shows "\<exists>r b c'. iterate chunk_body (b0, j0, c) = Some (r, b, c') \<and> (r = 0 \<or> r = 1) \<and>
           moves b0 j0 b (length b)"
proof -
  let ?I = "\<lambda>(b, j, c'). moves b0 j0 b j"
  let ?m = "\<lambda>(b, j, c'). length b - j"
  have init: "?I (b0, j0, c)" using assms by (simp add: moves_refl)
  have step: "?I s' \<and> ?m s' < ?m s" if i: "?I s" and b: "chunk_body s = Some (Next s')"
    for s s' :: walk_vars
  proof -
    obtain b1 j1 c1 where s: "s = (b1, j1, c1)" by (cases s)
    obtain b2 j2 c2 where s': "s' = (b2, j2, c2)" by (cases s')
    from i s have m1: "moves b0 j0 b1 j1" by simp
    from chunk_body_step [OF moves_le [OF m1], of c1] b s s'
    have n: "moves b1 j1 b2 j2" "j1 < j2" by auto
    from m1 n(1) have "moves b0 j0 b2 j2" by (rule moves_trans)
    moreover from n have "length b2 - j2 < length b1 - j1" by (auto simp: moves_def)
    ultimately show ?thesis using s s' by simp
  qed
  have some: "chunk_body s \<noteq> None" if i: "?I s" for s :: walk_vars
  proof -
    obtain b1 j1 c1 where s: "s = (b1, j1, c1)" by (cases s)
    from i s have m1: "moves b0 j0 b1 j1" by simp
    from chunk_body_step [OF moves_le [OF m1], of c1] s show ?thesis by auto
  qed
  have "\<exists>r. iterate chunk_body (b0, j0, c) = Some r"
  proof (rule iterate_total [where I = ?I and m = ?m])
    show "?I (b0, j0, c)" by (rule init)
  next
    fix s :: walk_vars assume "?I s"
    then show "chunk_body s \<noteq> None" by (rule some)
  next
    fix s s' :: walk_vars assume "?I s" "chunk_body s = Some (Next s')"
    then show "?I s' \<and> ?m s' < ?m s" by (rule step)
  qed
  then obtain r where it: "iterate chunk_body (b0, j0, c) = Some r" by blast
  have "case r of (x, b, c') \<Rightarrow> (x = 0 \<or> x = 1) \<and> moves b0 j0 b (length b)"
  proof (rule iterate_rule [OF it, where I = ?I])
    show "?I (b0, j0, c)" by (rule init)
  next
    fix s s' :: walk_vars
    assume "?I s" "chunk_body s = Some (Next s')"
    then show "?I s'" using step by blast
  next
    fix s :: walk_vars and r :: "int \<times> buffer \<times> chunk"
    assume i: "?I s" and b: "chunk_body s = Some (Return r)"
    obtain b1 j1 c1 where s: "s = (b1, j1, c1)" by (cases s)
    obtain x b2 c2 where r: "r = (x, b2, c2)" by (cases r)
    from i s have m1: "moves b0 j0 b1 j1" by simp
    from chunk_body_step [OF moves_le [OF m1], of c1] b s r
    have "(x = 0 \<or> x = 1) \<and> moves b1 j1 b2 (length b2)" by auto
    with m1 r show "case r of (x, b, c') \<Rightarrow> (x = 0 \<or> x = 1) \<and> moves b0 j0 b (length b)"
      by (auto intro: moves_trans)
  qed
  with it show ?thesis by (cases r) auto
qed

lemma chunk_parse_result:
  "\<exists>r b c'. chunk_parse buf c = Some (r, b, c') \<and> (r = 0 \<or> r = 1) \<and>
     moves buf 0 b (length b)"
proof -
  obtain t b0 j0 where jn: "json_next buf 0 = (t, b0, j0)" by (cases "json_next buf 0")
  from jn have m: "moves buf 0 b0 j0" by (rule json_next_moves) simp
  show ?thesis
  proof (cases "tok_type t = JSON_OBEG")
    case False
    with jn moves_to_end [OF m] show ?thesis by (simp add: chunk_parse_def)
  next
    case True
    from chunk_loop_result [OF moves_le [OF m], of c] obtain r b c'
      where "iterate chunk_body (b0, j0, c) = Some (r, b, c')" "r = 0 \<or> r = 1"
        "moves b0 j0 b (length b)"
      by blast
    with jn True moves_trans [OF m] show ?thesis by (simp add: chunk_parse_def)
  qed
qed

text \<open>Whether the loop of \<open>parse_player\<close> goes on, and where, does not depend on the rating.\<close>

lemma player_field_any_rating:
  assumes "player_field k (buf, off, idx, rt, nm) = Some (Next (b, j, i, r, n))"
  shows "\<exists>r'. player_field k (buf, off, idx, None, nm) = Some (Next (b, j, i, r', n))"
  using assms
  by (auto simp: player_field_def split: prod.splits option.splits sum.splits if_splits)

lemma player_body_any_rating:
  assumes "player_body p (buf, off, idx, rt, nm) = Some (Next (b, j, i, r, n))"
  shows "\<exists>r'. player_body p (buf, off, idx, None, nm) = Some (Next (b, j, i, r', n))"
proof -
  obtain k b1 j1 where pk: "parse_key buf off = (k, b1, j1)" by (cases "parse_key buf off")
  from assms pk obtain b2 j2 i2 r2 n2
    where pf: "player_field k (b1, j1, idx, rt, nm) = Some (Next (b2, j2, i2, r2, n2))"
    by (auto simp: player_body_def split: option.splits ctl.splits)
  from player_field_any_rating [OF pf] obtain r'
    where pf': "player_field k (b1, j1, idx, None, nm) = Some (Next (b2, j2, i2, r', n2))"
    by blast
  from assms pk pf have "b = fst (snd (json_next b2 j2)) \<and> j = snd (snd (json_next b2 j2))
      \<and> i = i2 \<and> n = n2 \<and> tok_type (fst (json_next b2 j2)) = JSON_COMMA"
    by (auto simp: player_body_def split: prod.splits option.splits if_splits)
  with pk pf' show ?thesis
    by (auto simp: player_body_def split: prod.splits option.splits if_splits)
qed

lemma player_body_progress:
  assumes "player_body p (buf, off, idx, rt, nm) = Some (Next (b, j, i, r, n))"
    and "off \<le> length buf"
  shows "moves buf off b j \<and> off < j"
proof -
  from player_body_any_rating [OF assms(1)] obtain r'
    where n: "player_body p (buf, off, idx, None, nm) = Some (Next (b, j, i, r', n))"
    by blast
  have "rating_head off buf off None" by (simp add: rating_head_def)
  from player_body_step [OF assms(2) this, of p idx nm] n show ?thesis by auto
qed

lemma skip_until_none:
  assumes "q \<le> length buf" and "c \<notin> set (drop q buf)"
  shows "skip_until buf q c = length buf"
proof -
  from assms(2) have tw: "takeWhile (\<lambda>ch. ch \<noteq> c) (drop q buf) = drop q buf"
    by (intro takeWhile_eq_all_conv [THEN iffD2]) auto
  from assms(1) show ?thesis by (simp only: skip_until_eq tw) simp
qed

lemma skip_until_stop:
  assumes "skip_until buf q c < length buf"
  shows "buf ! skip_until buf q c = c"
proof -
  let ?tw = "takeWhile (\<lambda>ch. ch \<noteq> c) (drop q buf)"
  from assms have lt: "length ?tw < length (drop q buf)" by (simp add: skip_until_eq)
  then have "\<not> (drop q buf ! length ?tw \<noteq> c)" by (rule nth_length_takeWhile)
  with lt show ?thesis by (simp add: skip_until_eq)
qed

lemma skip_until_before:
  assumes "q \<le> i" and "i < skip_until buf q c"
  shows "i < length buf \<and> buf ! i \<noteq> c"
proof -
  let ?tw = "takeWhile (\<lambda>ch. ch \<noteq> c) (drop q buf)"
  from assms have lt: "i - q < length ?tw" by (simp add: skip_until_eq)
  then have "?tw ! (i - q) \<in> set ?tw" by simp
  from set_takeWhileD [OF this] have ne: "?tw ! (i - q) \<noteq> c" by simp
  have "length ?tw \<le> length (drop q buf)" by (rule length_takeWhile_le)
  with lt have il: "i - q < length (drop q buf)" by simp
  from lt have "?tw ! (i - q) = drop q buf ! (i - q)" by (rule takeWhile_nth)
  with ne il assms(1) show ?thesis by simp
qed

lemma json_next_quote:
  assumes "skip_whitespace buf off < length buf" and "buf ! skip_whitespace buf off = CHR 0x22"
  shows "json_next buf off =
     (let q = skip_whitespace buf off; e = skip_until buf (q + 1) (CHR 0x22) in
        if e = length buf
        then (\<lparr>tok_off = q + 1, tok_len = e - (q + 1), tok_type = JSON_ERROR\<rparr>, buf, e)
        else (\<lparr>tok_off = q + 1, tok_len = e - (q + 1), tok_type = JSON_STRING\<rparr>,
              buf[e := CHR 0x00], e + 1))"
  using assms by (simp add: json_next_def Let_def peek_def)

text \<open>
  Claim C7. When \<open>json_next\<close> returns a string token, the byte at \<open>tok_off + tok_len\<close> was
  the closing quote, it lies inside the buffer and is a null byte after the call, the
  buffer after the call is the buffer before it with that one byte overwritten (so no byte
  before \<open>tok_off\<close>, inside the token or after \<open>tok_off + tok_len\<close> is altered), and the
  cursor is one past it. When the first byte after the white space is a quote and no
  quote follows it before the end of the buffer, the token is an error token, the cursor
  is the length of the buffer and the buffer is unchanged.
\<close>

theorem json_next_string_frame:
  assumes "off \<le> length buf" and "json_next buf off = (t, buf', off')"
  shows "(tok_type t = JSON_STRING \<longrightarrow>
            tok_off t + tok_len t < length buf \<and>
            buf ! (tok_off t + tok_len t) = CHR 0x22 \<and>
            buf' = buf[tok_off t + tok_len t := CHR 0x00] \<and>
            buf' ! (tok_off t + tok_len t) = CHR 0x00 \<and>
            (\<forall>i. i \<noteq> tok_off t + tok_len t \<longrightarrow> buf' ! i = buf ! i) \<and>
            off < tok_off t \<and> buf ! (tok_off t - 1) = CHR 0x22 \<and>
            CHR 0x22 \<notin> set (span buf t) \<and> span buf' t = span buf t \<and>
            off' = tok_off t + tok_len t + 1) \<and>
         (skip_whitespace buf off < length buf \<and>
          buf ! skip_whitespace buf off = CHR 0x22 \<and>
          CHR 0x22 \<notin> set (drop (skip_whitespace buf off + 1) buf) \<longrightarrow>
            tok_type t = JSON_ERROR \<and> off' = length buf \<and> buf' = buf)"
proof -
  let ?q = "skip_whitespace buf off"
  have second: "tok_type t = JSON_ERROR \<and> off' = length buf \<and> buf' = buf"
    if q: "?q < length buf" "buf ! ?q = CHR 0x22"
      and none: "CHR 0x22 \<notin> set (drop (?q + 1) buf)"
  proof -
    from q(1) have "?q + 1 \<le> length buf" by simp
    then have "skip_until buf (?q + 1) (CHR 0x22) = length buf"
      using none by (rule skip_until_none)
    with json_next_quote [OF q] assms(2) show ?thesis by (simp add: Let_def)
  qed
  have first: "tok_off t + tok_len t < length buf \<and>
            buf ! (tok_off t + tok_len t) = CHR 0x22 \<and>
            buf' = buf[tok_off t + tok_len t := CHR 0x00] \<and>
            buf' ! (tok_off t + tok_len t) = CHR 0x00 \<and>
            (\<forall>i. i \<noteq> tok_off t + tok_len t \<longrightarrow> buf' ! i = buf ! i) \<and>
            off < tok_off t \<and> buf ! (tok_off t - 1) = CHR 0x22 \<and>
            CHR 0x22 \<notin> set (span buf t) \<and> span buf' t = span buf t \<and>
            off' = tok_off t + tok_len t + 1"
    if str: "tok_type t = JSON_STRING"
    using assms(2,1)
  proof (cases rule: json_next_cases)
    case (string q e)
    from string(1) have oq: "off \<le> q" by (simp add: skip_whitespace_ge)
    have qe: "q + 1 \<le> e" unfolding string(4) by (rule skip_until_ge)
    then have pos: "tok_off t + tok_len t = e" by (simp add: string(6))
    from string(5) have cl: "buf ! e = CHR 0x22"
      unfolding string(4) by (rule skip_until_stop)
    have inner: "\<And>i. q + 1 \<le> i \<Longrightarrow> i < e \<Longrightarrow> buf ! i \<noteq> CHR 0x22"
      using skip_until_before [of "q + 1" _ buf "CHR 0x22"] string(4) by simp
    have sp: "span buf t = take (e - (q + 1)) (drop (q + 1) buf)"
      by (simp add: span_def string(6))
    have nq: "CHR 0x22 \<notin> set (span buf t)"
    proof
      assume "CHR 0x22 \<in> set (span buf t)"
      then obtain k where k: "k < length (span buf t)" "span buf t ! k = CHR 0x22"
        by (auto simp: in_set_conv_nth)
      from k(1) string(5) have kl: "k < e - (q + 1)" by (simp add: sp)
      with k(2) string(5) have "buf ! (q + 1 + k) = CHR 0x22" by (simp add: sp)
      moreover from kl have "buf ! (q + 1 + k) \<noteq> CHR 0x22" by (intro inner) simp_all
      ultimately show False by simp
    qed
    have same: "span buf' t = span buf t"
      unfolding span_def string(6,7) using qe by (simp add: drop_update_swap)
    have other: "\<And>i. i \<noteq> e \<Longrightarrow> buf' ! i = buf ! i" by (simp add: string(7))
    have nul: "buf' ! e = CHR 0x00" using string(5) by (simp add: string(7))
    from oq string(3) have "off < tok_off t" "buf ! (tok_off t - 1) = CHR 0x22"
      by (simp_all add: string(6))
    with pos cl other nq same nul string(5,7,8) show ?thesis
      by simp
  next
    case (punct q ty)
    with str show ?thesis by (auto simp: punct_char_def split: if_splits)
  next
    case (literal q n ty)
    with str show ?thesis by auto
  qed (use str in simp_all)
  from first second show ?thesis by blast
qed

lemma json_next_string_ex:
  "json_next '' \"ab\":1'' 0 =
     (\<lparr>tok_off = 2, tok_len = 2, tok_type = JSON_STRING\<rparr>,
      [CHR '' '', CHR 0x22, CHR ''a'', CHR ''b'', CHR 0x00, CHR '':'', CHR ''1''], 5)"
  by code_simp

lemma json_next_unterminated_ex:
  "json_next '' \"ab'' 0 = (\<lparr>tok_off = 2, tok_len = 2, tok_type = JSON_ERROR\<rparr>, '' \"ab'', 4)"
  by code_simp

theorem json_next_string_frame_witness:
  "json_next '' \"ab\":1'' 0 =
     (\<lparr>tok_off = 2, tok_len = 2, tok_type = JSON_STRING\<rparr>,
      [CHR '' '', CHR 0x22, CHR ''a'', CHR ''b'', CHR 0x00, CHR '':'', CHR ''1''], 5) \<and>
   '' \"ab\":1'' ! 4 = CHR 0x22 \<and>
   [CHR '' '', CHR 0x22, CHR ''a'', CHR ''b'', CHR 0x00, CHR '':'', CHR ''1''] =
     '' \"ab\":1''[4 := CHR 0x00] \<and>
   span '' \"ab\":1'' \<lparr>tok_off = 2, tok_len = 2, tok_type = JSON_STRING\<rparr> = ''ab'' \<and>
   skip_whitespace '' \"ab'' 0 = 1 \<and> '' \"ab'' ! 1 = CHR 0x22 \<and>
   CHR 0x22 \<notin> set (drop 2 '' \"ab'') \<and>
   json_next '' \"ab'' 0 = (\<lparr>tok_off = 2, tok_len = 2, tok_type = JSON_ERROR\<rparr>, '' \"ab'', 4)"
proof -
  have a: "(0::nat) \<le> length '' \"ab\":1''" "(0::nat) \<le> length '' \"ab''" by simp_all
  have ty: "tok_type \<lparr>tok_off = 2, tok_len = 2, tok_type = JSON_STRING\<rparr> = JSON_STRING"
    by simp
  note s = json_next_string_frame [OF a(1) json_next_string_ex, THEN conjunct1, rule_format, OF ty]
  have ws: "skip_whitespace '' \"ab'' 0 = 1" by code_simp
  have nq: "CHR 0x22 \<notin> set (drop 2 '' \"ab'')" by simp
  have "skip_whitespace '' \"ab'' 0 < length '' \"ab'' \<and>
      '' \"ab'' ! skip_whitespace '' \"ab'' 0 = CHR 0x22 \<and>
      CHR 0x22 \<notin> set (drop (skip_whitespace '' \"ab'' 0 + 1) '' \"ab'')"
    unfolding ws by simp
  note u = json_next_string_frame [OF a(2) json_next_unterminated_ex, THEN conjunct2, rule_format,
      OF this]
  from s have 1: "'' \"ab\":1'' ! 4 = CHR 0x22" by simp
  from s have 2: "[CHR '' '', CHR 0x22, CHR ''a'', CHR ''b'', CHR 0x00, CHR '':'', CHR ''1''] =
     '' \"ab\":1''[4 := CHR 0x00]" by simp
  from u have 3: "json_next '' \"ab'' 0 =
      (\<lparr>tok_off = 2, tok_len = 2, tok_type = JSON_ERROR\<rparr>, '' \"ab'', 4)"
    by (simp add: json_next_unterminated_ex)
  have 4: "span '' \"ab\":1'' \<lparr>tok_off = 2, tok_len = 2, tok_type = JSON_STRING\<rparr> = ''ab''"
    by (simp add: span_def)
  from 1 2 3 4 ws nq json_next_string_ex show ?thesis by simp
qed

lemma json_next_outcome:
  assumes "off \<le> length buf"
  shows "\<exists>t b j. json_next buf off = (t, b, j) \<and> length b = length buf \<and> j \<le> length buf \<and>
     (if tok_type t = JSON_ERROR
      then b = buf \<and> (j = skip_whitespace buf off \<or> j = length buf)
      else off < j)"
proof -
  obtain t b j where jn: "json_next buf off = (t, b, j)" by (metis prod_cases3)
  from jn assms have m: "moves buf off b j" by (rule json_next_moves)
  have "if tok_type t = JSON_ERROR
      then b = buf \<and> (j = skip_whitespace buf off \<or> j = length buf)
      else off < j"
  proof (cases "tok_type t = JSON_ERROR")
    case True
    from jn assms show ?thesis
      by (cases rule: json_next_cases) (use True in \<open>auto simp: punct_char_def split: if_splits\<close>)
  next
    case False
    with json_next_advance [OF jn assms] show ?thesis by simp
  qed
  with jn m show ?thesis by (auto simp: moves_def)
qed

lemma json_next_error_sentinel:
  assumes "tok_type (fst (json_next buf off)) = JSON_ERROR" and "off \<le> length buf"
  shows "parse_key buf off = (SYM_UNKNOWN, buf, length buf) \<and>
     parse_string buf off = (None, buf, length buf) \<and>
     parse_number buf off = (None, buf, length buf) \<and>
     parse_enum buf off = (SYM_UNKNOWN, buf, length buf) \<and>
     skip_value buf off = (buf, length buf)"
proof -
  obtain t b j where jn: "json_next buf off = (t, b, j)" by (metis prod_cases3)
  with assms(1) have ty: "tok_type t = JSON_ERROR" by simp
  from json_next_outcome [OF assms(2)] jn ty have "b = buf" by auto
  with jn ty show ?thesis
    by (simp add: parse_key_def parse_string_def parse_number_def parse_enum_def skip_value_def
        scalar_type_def)
qed

text \<open>
  Claim C9. \<open>chunk_parse\<close> returns on every buffer and record, with 0 or 1, and a buffer
  of the same length. From a cursor inside the buffer, \<open>json_next\<close> returns a token that is
  not an error with the cursor strictly advanced, or an error token with the buffer
  unchanged and the cursor at the first byte after the white space or at the length of the
  buffer; on an error token every caller that reads a key or a value sets the cursor to
  the length of the buffer. Every pass of each of the four loops that goes on to a next
  pass has strictly advanced the cursor, which stays within the buffer, and the user
  loop, \<open>parse_player\<close>, \<open>parse_data\<close> and the loop of \<open>chunk_parse\<close> return.
\<close>

theorem chunk_parse_terminates:
  "(\<exists>r b c'. chunk_parse buf c = Some (r, b, c') \<and> (r = 0 \<or> r = 1) \<and> length b = length buf) \<and>
   (off \<le> length buf \<longrightarrow>
      (\<exists>t b j. json_next buf off = (t, b, j) \<and> length b = length buf \<and> j \<le> length buf \<and>
         (if tok_type t = JSON_ERROR
          then b = buf \<and> (j = skip_whitespace buf off \<or> j = length buf)
          else off < j)) \<and>
      (tok_type (fst (json_next buf off)) = JSON_ERROR \<longrightarrow>
         parse_key buf off = (SYM_UNKNOWN, buf, length buf) \<and>
         parse_string buf off = (None, buf, length buf) \<and>
         parse_number buf off = (None, buf, length buf) \<and>
         parse_enum buf off = (SYM_UNKNOWN, buf, length buf) \<and>
         skip_value buf off = (buf, length buf)) \<and>
      (\<forall>b j n. user_body (buf, off, nm) = Some (Next (b, j, n)) \<longrightarrow>
         off < j \<and> j \<le> length b \<and> length b = length buf) \<and>
      (\<forall>b j i r n. player_body p (buf, off, idx, rt, nm) = Some (Next (b, j, i, r, n)) \<longrightarrow>
         off < j \<and> j \<le> length b \<and> length b = length buf) \<and>
      (\<forall>b j c'. data_body (buf, off, c) = Some (Next (b, j, c')) \<longrightarrow>
         off < j \<and> j \<le> length b \<and> length b = length buf) \<and>
      (\<forall>b j c'. chunk_body (buf, off, c) = Some (Next (b, j, c')) \<longrightarrow>
         off < j \<and> j \<le> length b \<and> length b = length buf) \<and>
      (\<exists>r. iterate user_body (buf, off, nm) = Some r) \<and>
      (\<exists>b j p'. parse_player buf off p = Some (b, j, p') \<and> off \<le> j \<and> j \<le> length b) \<and>
      (\<exists>b j c'. parse_data buf off c = Some (b, j, c') \<and> off \<le> j \<and> j \<le> length b) \<and>
      (\<exists>r b c'. iterate chunk_body (buf, off, c) = Some (r, b, c') \<and> (r = 0 \<or> r = 1)))"
proof -
  have total: "\<exists>r b c'. chunk_parse buf c = Some (r, b, c') \<and> (r = 0 \<or> r = 1) \<and>
      length b = length buf"
    using chunk_parse_result [of buf c] by (auto simp: moves_def)
  have rest: "(\<exists>t b j. json_next buf off = (t, b, j) \<and> length b = length buf \<and> j \<le> length buf \<and>
         (if tok_type t = JSON_ERROR
          then b = buf \<and> (j = skip_whitespace buf off \<or> j = length buf)
          else off < j)) \<and>
      (tok_type (fst (json_next buf off)) = JSON_ERROR \<longrightarrow>
         parse_key buf off = (SYM_UNKNOWN, buf, length buf) \<and>
         parse_string buf off = (None, buf, length buf) \<and>
         parse_number buf off = (None, buf, length buf) \<and>
         parse_enum buf off = (SYM_UNKNOWN, buf, length buf) \<and>
         skip_value buf off = (buf, length buf)) \<and>
      (\<forall>b j n. user_body (buf, off, nm) = Some (Next (b, j, n)) \<longrightarrow>
         off < j \<and> j \<le> length b \<and> length b = length buf) \<and>
      (\<forall>b j i r n. player_body p (buf, off, idx, rt, nm) = Some (Next (b, j, i, r, n)) \<longrightarrow>
         off < j \<and> j \<le> length b \<and> length b = length buf) \<and>
      (\<forall>b j c'. data_body (buf, off, c) = Some (Next (b, j, c')) \<longrightarrow>
         off < j \<and> j \<le> length b \<and> length b = length buf) \<and>
      (\<forall>b j c'. chunk_body (buf, off, c) = Some (Next (b, j, c')) \<longrightarrow>
         off < j \<and> j \<le> length b \<and> length b = length buf) \<and>
      (\<exists>r. iterate user_body (buf, off, nm) = Some r) \<and>
      (\<exists>b j p'. parse_player buf off p = Some (b, j, p') \<and> off \<le> j \<and> j \<le> length b) \<and>
      (\<exists>b j c'. parse_data buf off c = Some (b, j, c') \<and> off \<le> j \<and> j \<le> length b) \<and>
      (\<exists>r b c'. iterate chunk_body (buf, off, c) = Some (r, b, c') \<and> (r = 0 \<or> r = 1))"
    if le: "off \<le> length buf"
  proof (intro conjI allI impI)
    show "\<exists>t b j. json_next buf off = (t, b, j) \<and> length b = length buf \<and> j \<le> length buf \<and>
         (if tok_type t = JSON_ERROR
          then b = buf \<and> (j = skip_whitespace buf off \<or> j = length buf)
          else off < j)"
      using le by (rule json_next_outcome)
  next
    assume "tok_type (fst (json_next buf off)) = JSON_ERROR"
    from json_next_error_sentinel [OF this le]
    show "parse_key buf off = (SYM_UNKNOWN, buf, length buf)"
      "parse_string buf off = (None, buf, length buf)"
      "parse_number buf off = (None, buf, length buf)"
      "parse_enum buf off = (SYM_UNKNOWN, buf, length buf)"
      "skip_value buf off = (buf, length buf)"
      by simp_all
  next
    fix b j n assume "user_body (buf, off, nm) = Some (Next (b, j, n))"
    from user_body_moves [OF this le]
    show "off < j" "j \<le> length b" "length b = length buf" by (simp_all add: moves_def)
  next
    fix b j i r n assume "player_body p (buf, off, idx, rt, nm) = Some (Next (b, j, i, r, n))"
    from player_body_progress [OF this le]
    show "off < j" "j \<le> length b" "length b = length buf" by (simp_all add: moves_def)
  next
    fix b j c' assume a: "data_body (buf, off, c) = Some (Next (b, j, c'))"
    from data_body_step [OF le, of c] a
    show "off < j" "j \<le> length b" "length b = length buf" by (simp_all add: moves_def)
  next
    fix b j c' assume a: "chunk_body (buf, off, c) = Some (Next (b, j, c'))"
    from chunk_body_step [OF le, of c] a
    show "off < j" "j \<le> length b" "length b = length buf" by (simp_all add: moves_def)
  next
    show "\<exists>r. iterate user_body (buf, off, nm) = Some r"
      using le by (rule user_loop_total)
  next
    show "\<exists>b j p'. parse_player buf off p = Some (b, j, p') \<and> off \<le> j \<and> j \<le> length b"
      using parse_player_result [OF le, of p] by (auto simp: moves_def)
  next
    show "\<exists>b j c'. parse_data buf off c = Some (b, j, c') \<and> off \<le> j \<and> j \<le> length b"
      using parse_data_result [OF le, of c] by (auto simp: moves_def)
  next
    show "\<exists>r b c'. iterate chunk_body (buf, off, c) = Some (r, b, c') \<and> (r = 0 \<or> r = 1)"
      using chunk_loop_result [OF le, of c] by auto
  qed
  from total rest show ?thesis by blast
qed

lemma pair_ex_1:
  "json_next ''\"a\":1,'' 0 =
     (\<lparr>tok_off = 1, tok_len = 1, tok_type = JSON_STRING\<rparr>,
      [CHR 0x22, CHR ''a'', CHR 0x00, CHR '':'', CHR ''1'', CHR '',''], 3)"
  by code_simp

lemma pair_ex_2:
  "P (Some (Next ([CHR 0x22, CHR ''a'', CHR 0x00, CHR '':'', CHR ''1'', CHR '',''], 6, None))) \<Longrightarrow>
   P (user_body (''\"a\":1,'', 0, None))"
  apply code_simp
  apply simp
  done

lemma pair_ex_3:
  "P (Some (Next ([CHR 0x22, CHR ''a'', CHR 0x00, CHR '':'', CHR ''1'', CHR '',''], 6,
        None, None, None))) \<Longrightarrow>
   P (player_body (\<lambda>i. no_player) (''\"a\":1,'', 0, None, None, None))"
  apply code_simp
  apply simp
  done

lemma pair_ex_4:
  "P (Some (Next ([CHR 0x22, CHR ''a'', CHR 0x00, CHR '':'', CHR ''1'', CHR '',''], 6,
        zero_chunk))) \<Longrightarrow>
   P (data_body (''\"a\":1,'', 0, zero_chunk))"
  apply code_simp
  apply simp
  done

lemma pair_ex_5:
  "P (Some (Next ([CHR 0x22, CHR ''a'', CHR 0x00, CHR '':'', CHR ''1'', CHR '',''], 6,
        zero_chunk))) \<Longrightarrow>
   P (chunk_body (''\"a\":1,'', 0, zero_chunk))"
  apply code_simp
  apply simp
  done

lemma pair_ex_6: "tok_type (fst (json_next ''x'' 0)) = JSON_ERROR"
  by code_simp

theorem chunk_parse_terminates_witness:
  "user_body (''\"a\":1,'', 0, None) =
     Some (Next ([CHR 0x22, CHR ''a'', CHR 0x00, CHR '':'', CHR ''1'', CHR '',''], 6, None)) \<and>
   player_body (\<lambda>i. no_player) (''\"a\":1,'', 0, None, None, None) =
     Some (Next ([CHR 0x22, CHR ''a'', CHR 0x00, CHR '':'', CHR ''1'', CHR '',''], 6,
       None, None, None)) \<and>
   data_body (''\"a\":1,'', 0, zero_chunk) =
     Some (Next ([CHR 0x22, CHR ''a'', CHR 0x00, CHR '':'', CHR ''1'', CHR '',''], 6, zero_chunk)) \<and>
   chunk_body (''\"a\":1,'', 0, zero_chunk) =
     Some (Next ([CHR 0x22, CHR ''a'', CHR 0x00, CHR '':'', CHR ''1'', CHR '',''], 6, zero_chunk)) \<and>
   (0::nat) < 6 \<and> (6::nat) \<le> length ''\"a\":1,'' \<and>
   tok_type (fst (json_next ''x'' 0)) = JSON_ERROR \<and>
   parse_key ''x'' 0 = (SYM_UNKNOWN, ''x'', 1) \<and>
   parse_string ''x'' 0 = (None, ''x'', 1) \<and>
   parse_number ''x'' 0 = (None, ''x'', 1) \<and>
   parse_enum ''x'' 0 = (SYM_UNKNOWN, ''x'', 1) \<and>
   skip_value ''x'' 0 = (''x'', 1) \<and>
   (\<exists>r b c'. chunk_parse ''\"a\":1,'' zero_chunk = Some (r, b, c'))"
proof -
  let ?b = "''\"a\":1,''"
  let ?p = "\<lambda>i::nat. no_player"
  have le: "(0::nat) \<le> length ?b" "(0::nat) \<le> length ''x''" by simp_all
  note t = chunk_parse_terminates [of ?b zero_chunk 0 None ?p None None]
  note e = chunk_parse_terminates [of "''x''" zero_chunk 0 None ?p None None,
      THEN conjunct2, rule_format, OF le(2), THEN conjunct2, THEN conjunct1, rule_format,
      OF pair_ex_6]
  have u: "user_body (?b, 0, None) =
     Some (Next ([CHR 0x22, CHR ''a'', CHR 0x00, CHR '':'', CHR ''1'', CHR '',''], 6, None))"
    by (rule pair_ex_2) (rule refl)
  have pl: "player_body ?p (?b, 0, None, None, None) =
     Some (Next ([CHR 0x22, CHR ''a'', CHR 0x00, CHR '':'', CHR ''1'', CHR '',''], 6,
       None, None, None))"
    by (rule pair_ex_3) (rule refl)
  have d: "data_body (?b, 0, zero_chunk) =
     Some (Next ([CHR 0x22, CHR ''a'', CHR 0x00, CHR '':'', CHR ''1'', CHR '',''], 6, zero_chunk))"
    by (rule pair_ex_4) (rule refl)
  have c: "chunk_body (?b, 0, zero_chunk) =
     Some (Next ([CHR 0x22, CHR ''a'', CHR 0x00, CHR '':'', CHR ''1'', CHR '',''], 6, zero_chunk))"
    by (rule pair_ex_5) (rule refl)
  note r = t [THEN conjunct2, rule_format, OF le(1)]
  from r u have 1: "(0::nat) < 6 \<and> (6::nat) \<le> length ?b" by simp
  from t have 2: "\<exists>r b c'. chunk_parse ?b zero_chunk = Some (r, b, c')" by blast
  from e have 3: "parse_key ''x'' 0 = (SYM_UNKNOWN, ''x'', 1)"
    "parse_string ''x'' 0 = (None, ''x'', 1)" "parse_number ''x'' 0 = (None, ''x'', 1)"
    "parse_enum ''x'' 0 = (SYM_UNKNOWN, ''x'', 1)" "skip_value ''x'' 0 = (''x'', 1)"
    by simp_all
  from u pl d c 1 2 3 pair_ex_6 show ?thesis by simp
qed

lemma scenario_A_eval:
  "P (Some (1, scenario_A[3 := CHR 0x00, 14 := CHR 0x00, 18 := CHR 0x00, 25 := CHR 0x00, 40 := CHR 0x00, 50 := CHR 0x00, 60 := CHR 0x00, 68 := CHR 0x00, 77 := CHR 0x00, 83 := CHR 0x00, 89 := CHR 0x00, 97 := CHR 0x00, 105 := CHR 0x00, 116 := CHR 0x00, 124 := CHR 0x00, 133 := CHR 0x00, 139 := CHR 0x00, 145 := CHR 0x00, 153 := CHR 0x00, 159 := CHR 0x00],
        \<lparr>fen = Some 28,
         players = p0(0 := \<lparr>name = Some 100, rating = Some 79\<rparr>,
                      1 := \<lparr>name = Some 156, rating = Some 135\<rparr>),
         type = CHUNK_FEATURED\<rparr>)) \<Longrightarrow>
   P (chunk_parse scenario_A \<lparr>fen = f0, players = p0, type = t0\<rparr>)"
  apply code_simp
  apply (simp cong: if_cong)
  done

lemma scenario_A_strings:
  "c_string (scenario_A[3 := CHR 0x00, 14 := CHR 0x00, 18 := CHR 0x00, 25 := CHR 0x00, 40 := CHR 0x00, 50 := CHR 0x00, 60 := CHR 0x00, 68 := CHR 0x00, 77 := CHR 0x00, 83 := CHR 0x00, 89 := CHR 0x00, 97 := CHR 0x00, 105 := CHR 0x00, 116 := CHR 0x00, 124 := CHR 0x00, 133 := CHR 0x00, 139 := CHR 0x00, 145 := CHR 0x00, 153 := CHR 0x00, 159 := CHR 0x00]) 28 = ''rnbqkbnr/...''"
  "c_string (scenario_A[3 := CHR 0x00, 14 := CHR 0x00, 18 := CHR 0x00, 25 := CHR 0x00, 40 := CHR 0x00, 50 := CHR 0x00, 60 := CHR 0x00, 68 := CHR 0x00, 77 := CHR 0x00, 83 := CHR 0x00, 89 := CHR 0x00, 97 := CHR 0x00, 105 := CHR 0x00, 116 := CHR 0x00, 124 := CHR 0x00, 133 := CHR 0x00, 139 := CHR 0x00, 145 := CHR 0x00, 153 := CHR 0x00, 159 := CHR 0x00]) 100 = ''Alice''"
  "c_string (scenario_A[3 := CHR 0x00, 14 := CHR 0x00, 18 := CHR 0x00, 25 := CHR 0x00, 40 := CHR 0x00, 50 := CHR 0x00, 60 := CHR 0x00, 68 := CHR 0x00, 77 := CHR 0x00, 83 := CHR 0x00, 89 := CHR 0x00, 97 := CHR 0x00, 105 := CHR 0x00, 116 := CHR 0x00, 124 := CHR 0x00, 133 := CHR 0x00, 139 := CHR 0x00, 145 := CHR 0x00, 153 := CHR 0x00, 159 := CHR 0x00]) 79 = ''2500''"
  "c_string (scenario_A[3 := CHR 0x00, 14 := CHR 0x00, 18 := CHR 0x00, 25 := CHR 0x00, 40 := CHR 0x00, 50 := CHR 0x00, 60 := CHR 0x00, 68 := CHR 0x00, 77 := CHR 0x00, 83 := CHR 0x00, 89 := CHR 0x00, 97 := CHR 0x00, 105 := CHR 0x00, 116 := CHR 0x00, 124 := CHR 0x00, 133 := CHR 0x00, 139 := CHR 0x00, 145 := CHR 0x00, 153 := CHR 0x00, 159 := CHR 0x00]) 156 = ''Bob''"
  "c_string (scenario_A[3 := CHR 0x00, 14 := CHR 0x00, 18 := CHR 0x00, 25 := CHR 0x00, 40 := CHR 0x00, 50 := CHR 0x00, 60 := CHR 0x00, 68 := CHR 0x00, 77 := CHR 0x00, 83 := CHR 0x00, 89 := CHR 0x00, 97 := CHR 0x00, 105 := CHR 0x00, 116 := CHR 0x00, 124 := CHR 0x00, 133 := CHR 0x00, 139 := CHR 0x00, 145 := CHR 0x00, 153 := CHR 0x00, 159 := CHR 0x00]) 135 = ''2400''"
  by code_simp+

text \<open>
  Claim C1. On the buffer of Scenario A, \<open>chunk_parse\<close> returns 1 whatever the caller's
  record holds, and leaves \<open>type = CHUNK_FEATURED\<close>, \<open>fen\<close> pointing at the string
  \<^verbatim>\<open>rnbqkbnr/...\<close>, \<open>players[0]\<close> with the name \<^verbatim>\<open>Alice\<close> and the rating \<^verbatim>\<open>2500\<close>, and
  \<open>players[1]\<close> with the name \<^verbatim>\<open>Bob\<close> and the rating \<^verbatim>\<open>2400\<close>; each pointer is an offset
  into the buffer as the call leaves it, read up to the first null byte.
\<close>

theorem scenario_A_featured:
  "\<exists>b. chunk_parse scenario_A c =
          Some (1, b, c\<lparr>fen := Some 28,
                         players := (players c)(0 := \<lparr>name = Some 100, rating = Some 79\<rparr>,
                                                1 := \<lparr>name = Some 156, rating = Some 135\<rparr>),
                         type := CHUNK_FEATURED\<rparr>) \<and>
        c_string b 28 = ''rnbqkbnr/...'' \<and>
        c_string b 100 = ''Alice'' \<and> c_string b 79 = ''2500'' \<and>
        c_string b 156 = ''Bob'' \<and> c_string b 135 = ''2400''"
proof -
  let ?b = "scenario_A[3 := CHR 0x00, 14 := CHR 0x00, 18 := CHR 0x00, 25 := CHR 0x00, 40 := CHR 0x00, 50 := CHR 0x00, 60 := CHR 0x00, 68 := CHR 0x00, 77 := CHR 0x00, 83 := CHR 0x00, 89 := CHR 0x00, 97 := CHR 0x00, 105 := CHR 0x00, 116 := CHR 0x00, 124 := CHR 0x00, 133 := CHR 0x00, 139 := CHR 0x00, 145 := CHR 0x00, 153 := CHR 0x00, 159 := CHR 0x00]"
  have "chunk_parse scenario_A \<lparr>fen = fen c, players = players c, type = type c\<rparr> =
      Some (1, ?b,
        \<lparr>fen = Some 28,
         players = (players c)(0 := \<lparr>name = Some 100, rating = Some 79\<rparr>,
                               1 := \<lparr>name = Some 156, rating = Some 135\<rparr>),
         type = CHUNK_FEATURED\<rparr>)"
    by (rule scenario_A_eval) (rule refl)
  then have "chunk_parse scenario_A c =
      Some (1, ?b, c\<lparr>fen := Some 28,
                       players := (players c)(0 := \<lparr>name = Some 100, rating = Some 79\<rparr>,
                                              1 := \<lparr>name = Some 156, rating = Some 135\<rparr>),
                       type := CHUNK_FEATURED\<rparr>)"
    by (cases c) simp
  with scenario_A_strings show ?thesis by blast
qed

lemma scenario_B_eval:
  "P (Some (1, scenario_B[3 := CHR 0x00, 9 := CHR 0x00, 13 := CHR 0x00, 20 := CHR 0x00, 38 := CHR 0x00], \<lparr>fen = Some 23, players = p0, type = CHUNK_FEN\<rparr>)) \<Longrightarrow>
   P (chunk_parse scenario_B \<lparr>fen = f0, players = p0, type = t0\<rparr>)"
  apply code_simp
  apply (simp cong: if_cong)
  done

lemma scenario_B_result:
  "chunk_parse scenario_B c =
     Some (1, scenario_B[3 := CHR 0x00, 9 := CHR 0x00, 13 := CHR 0x00, 20 := CHR 0x00, 38 := CHR 0x00], c\<lparr>fen := Some 23, type := CHUNK_FEN\<rparr>)"
proof -
  have "chunk_parse scenario_B \<lparr>fen = fen c, players = players c, type = type c\<rparr> =
     Some (1, scenario_B[3 := CHR 0x00, 9 := CHR 0x00, 13 := CHR 0x00, 20 := CHR 0x00, 38 := CHR 0x00], \<lparr>fen = Some 23, players = players c, type = CHUNK_FEN\<rparr>)"
    by (rule scenario_B_eval) (rule refl)
  then show ?thesis by (cases c) simp
qed






lemma data_field_type:
  assumes "data_field k (buf, off, c) = Some x"
  shows "case x of Return (b, c') \<Rightarrow> type c' = type c | Next (b, j, c') \<Rightarrow> type c' = type c"
  using assms
  by (auto simp: data_field_def split: if_splits prod.splits option.splits)

lemma data_body_type:
  assumes "data_body (buf, off, c) = Some x"
  shows "case x of Return (b, j, c') \<Rightarrow> type c' = type c | Next (b, j, c') \<Rightarrow> type c' = type c"
proof -
  obtain k b1 j1 where pk: "parse_key buf off = (k, b1, j1)" by (metis prod_cases3)
  from assms pk obtain y where df: "data_field k (b1, j1, c) = Some y"
    by (auto simp: data_body_def split: option.splits)
  from data_field_type [OF df] assms pk df show ?thesis
    by (auto simp: data_body_def split: ctl.splits prod.splits if_splits)
qed

lemma parse_data_type:
  assumes "parse_data buf off c = Some (b, j, c')"
  shows "type c' = type c"
proof -
  obtain t b0 j0 where jn: "json_next buf off = (t, b0, j0)" by (metis prod_cases3)
  show ?thesis
  proof (cases "tok_type t = JSON_OBEG")
    case False
    with assms jn show ?thesis by (simp add: parse_data_def)
  next
    case True
    with assms jn have it: "iterate data_body (b0, j0, c) = Some (b, j, c')"
      by (simp add: parse_data_def)
    have "case (b, j, c') of (b, j, c') \<Rightarrow> type c' = type c"
    proof (rule iterate_rule [OF it, where I = "\<lambda>(b, j, c1). type c1 = type c"])
      show "case (b0, j0, c) of (b, j, c1) \<Rightarrow> type c1 = type c" by simp
    next
      fix s s' :: walk_vars
      assume "case s of (b, j, c1) \<Rightarrow> type c1 = type c" and "data_body s = Some (Next s')"
      then show "case s' of (b, j, c1) \<Rightarrow> type c1 = type c"
        using data_body_type [of "fst s" "fst (snd s)" "snd (snd s)" "Next s'"]
        by (cases s; cases s') simp
    next
      fix s r :: walk_vars
      assume "case s of (b, j, c1) \<Rightarrow> type c1 = type c" and "data_body s = Some (Return r)"
      then show "case r of (b, j, c') \<Rightarrow> type c' = type c"
        using data_body_type [of "fst s" "fst (snd s)" "snd (snd s)" "Return r"]
        by (cases s; cases r) simp
    qed
    then show ?thesis by simp
  qed
qed



lemma iter_heads_self: "s \<in> set (iter_heads n body s)"
  by (cases n) simp_all

lemma iter_heads_iterate:
  "s' \<in> set (iter_heads n body s) \<Longrightarrow> iterate body s' = iterate body s"
proof (induction n arbitrary: s)
  case 0
  then show ?case by simp
next
  case (Suc n)
  show ?case
  proof (cases "s' = s")
    case True
    then show ?thesis by simp
  next
    case False
    with Suc.prems obtain t where t: "body s = Some (Next t)" and in_t: "s' \<in> set (iter_heads n body t)"
      by (cases "body s") (auto split: ctl.splits)
    from Suc.IH [OF in_t] iterate_Next [of body s t, OF t] show ?thesis by simp
  qed
qed

lemma iter_heads_invariant:
  assumes "s' \<in> set (iter_heads n body s)" and "I s"
    and step: "\<And>s s'. I s \<Longrightarrow> body s = Some (Next s') \<Longrightarrow> I s'"
  shows "I s'"
  using assms(1,2)
proof (induction n arbitrary: s)
  case 0
  then show ?case by simp
next
  case (Suc n)
  show ?case
  proof (cases "s' = s")
    case True
    with Suc.prems(2) show ?thesis by simp
  next
    case False
    with Suc.prems obtain t where t: "body s = Some (Next t)" and in_t: "s' \<in> set (iter_heads n body t)"
      by (cases "body s") (auto split: ctl.splits)
    from step [OF Suc.prems(2) t] have "I t" .
    with in_t show ?thesis by (rule Suc.IH)
  qed
qed

lemma iter_heads_Return:
  assumes "s' \<in> set (iter_heads n body s)" and "body s' = Some (Return r)"
  shows "iterate body s = Some r"
  using iter_heads_iterate [OF assms(1)] iterate_Return [of body s' r, OF assms(2)] by simp

subsection \<open>A failure at any level makes chunk_parse return 0\<close>

lemma chunk_heads_Return:
  assumes "h \<in> set (chunk_heads n buf c)" and "chunk_body h = Some (Return r)"
  shows "chunk_parse buf c = Some r"
proof -
  obtain t b j where jn: "json_next buf 0 = (t, b, j)" by (metis prod_cases3)
  with assms(1) have ty: "tok_type t = JSON_OBEG" and h: "h \<in> set (iter_heads n chunk_body (b, j, c))"
    by (auto simp: chunk_heads_def split: if_splits)
  from iter_heads_Return [OF h assms(2)] jn ty show ?thesis by (simp add: chunk_parse_def)
qed

lemma data_heads_Return:
  assumes "h \<in> set (data_heads n (buf, off, c))" and "data_body h = Some (Return r)"
  shows "parse_data buf off c = Some r"
proof -
  obtain t b j where jn: "json_next buf off = (t, b, j)" by (metis prod_cases3)
  with assms(1) have ty: "tok_type t = JSON_OBEG" and h: "h \<in> set (iter_heads n data_body (b, j, c))"
    by (auto simp: data_heads_def split: if_splits)
  from iter_heads_Return [OF h assms(2)] jn ty show ?thesis by (simp add: parse_data_def)
qed

lemma player_heads_Return:
  assumes "h \<in> set (player_heads n (buf, off, p))" and "player_body p h = Some (Return r)"
  shows "parse_player buf off p = Some r"
proof -
  obtain t b j where jn: "json_next buf off = (t, b, j)" by (metis prod_cases3)
  with assms(1) have ty: "tok_type t = JSON_OBEG"
    and h: "h \<in> set (iter_heads n (player_body p) (b, j, None, None, None))"
    by (auto simp: player_heads_def split: if_splits)
  from iter_heads_Return [OF h assms(2)] jn ty show ?thesis by (simp add: parse_player_def)
qed

lemma json_next_end_type: "tok_type (fst (json_next b (length b))) = JSON_ERROR"
  by (simp add: json_next_at_end)

lemma chunk_body_data_failed:
  assumes "(b1, j1, c1) \<in> set (data_calls_at h)"
    and "parse_data b1 j1 c1 = Some (b2, length b2, c2)"
  shows "chunk_body h = Some (Return (0, b2, c2))"
proof -
  obtain b j c where h: "h = (b, j, c)" by (metis prod_cases3)
  from assms(1) h have pk: "parse_key b j = (SYM_d, b1, j1)" and c: "c1 = c"
    by (auto simp: data_calls_at_def split: prod.splits if_splits)
  from assms(2) c have "chunk_field SYM_d (b1, j1, c) = Some (Next (b2, length b2, c2))"
    by (simp add: chunk_field_def)
  with pk h show ?thesis
    by (simp add: chunk_body_def json_next_at_end)
qed

lemma data_body_player_failed:
  assumes "(b1, j1, p) \<in> set (player_calls_at h)"
    and "parse_player b1 j1 p = Some (b2, length b2, ps)"
  shows "\<exists>c'. data_body h = Some (Return (b2, length b2, c'))"
proof -
  obtain b j c where h: "h = (b, j, c)" by (metis prod_cases3)
  obtain k b3 j3 where pk: "parse_key b j = (k, b3, j3)" by (metis prod_cases3)
  obtain t b4 j4 where jn: "json_next b3 j3 = (t, b4, j4)" by (metis prod_cases3)
  from assms(1) h pk jn have k: "k = SYM_players" and ty: "tok_type t = JSON_ABEG"
    by (auto simp: player_calls_at_def split: if_splits)
  show ?thesis
  proof (cases "(b1, j1, p) = (b4, j4, players c)")
    case True
    with assms(2) have "data_field SYM_players (b3, j3, c) = Some (Return (b2, c\<lparr>players := ps\<rparr>))"
      using jn ty by (simp add: data_field_def json_next_at_end)
    with pk k h show ?thesis by (simp add: data_body_def)
  next
    case False
    from assms(1) h pk jn k ty False
    have "(b1, j1, p) \<in> set (second_call (b4, j4, players c))"
      by (auto simp: player_calls_at_def)
    then have rest: "(b1, j1, p) \<in> set (case parse_player b4 j4 (players c) of
          None \<Rightarrow> []
        | Some (buf, off, ps) \<Rightarrow>
            (case json_next buf off of (t, buf, off) \<Rightarrow>
               if tok_type t \<noteq> JSON_COMMA then [] else [(buf, off, ps)]))"
      by (simp only: second_call_def prod.case)
    then obtain b5 j5 ps1 where first: "parse_player b4 j4 (players c) = Some (b5, j5, ps1)"
      by (cases "parse_player b4 j4 (players c)") auto
    obtain t6 b6 j6 where jn6: "json_next b5 j5 = (t6, b6, j6)" by (metis prod_cases3)
    from rest first jn6 have ty6: "tok_type t6 = JSON_COMMA"
      and second: "(b1, j1, p) = (b6, j6, ps1)"
      by (auto split: if_splits)
    from second assms(2) have "parse_player b6 j6 ps1 = Some (b2, length b2, ps)" by simp
    with first jn6 ty6 jn ty
    have "data_field SYM_players (b3, j3, c) = Some (Return (b2, c\<lparr>players := ps\<rparr>))"
      by (simp add: data_field_def json_next_at_end)
    with pk k h show ?thesis by (simp add: data_body_def)
  qed
qed

lemma player_body_user_failed:
  assumes "u \<in> set (user_loops_at h)" and "iterate user_body u = Some (Inl b2)"
  shows "player_body p h = Some (Return (b2, length b2, p))"
proof -
  obtain b j idx rt nm where h: "h = (b, j, idx, rt, nm)" by (metis prod_cases5)
  obtain k b3 j3 where pk: "parse_key b j = (k, b3, j3)" by (metis prod_cases3)
  obtain t b4 j4 where jn: "json_next b3 j3 = (t, b4, j4)" by (metis prod_cases3)
  from assms(1) h pk jn have k: "k = SYM_user" and ty: "tok_type t = JSON_OBEG"
    and u: "u = (b4, j4, nm)"
    by (auto simp: user_loops_at_def split: if_splits)
  from assms(2) u jn ty have "player_field SYM_user (b3, j3, idx, rt, nm) = Some (Return b2)"
    by (simp add: player_field_def)
  with pk k h show ?thesis by (simp add: player_body_def)
qed

lemma run_data_failed:
  assumes "h \<in> set (run_data_heads n buf c)" and "data_body h = Some (Return (b, length b, c'))"
  shows "chunk_parse buf c = Some (0, b, c')"
proof -
  from assms(1) obtain h1 dc where h1: "h1 \<in> set (chunk_heads n buf c)"
    and dc: "dc \<in> set (data_calls_at h1)" and h: "h \<in> set (data_heads n dc)"
    by (auto simp: run_data_heads_def)
  obtain b1 j1 c1 where dc_eq: "dc = (b1, j1, c1)" by (metis prod_cases3)
  from data_heads_Return [OF h [unfolded dc_eq] assms(2)]
  have "parse_data b1 j1 c1 = Some (b, length b, c')" .
  from chunk_body_data_failed [OF dc [unfolded dc_eq] this]
  have "chunk_body h1 = Some (Return (0, b, c'))" .
  with h1 show ?thesis by (rule chunk_heads_Return)
qed

lemma run_player_call_failed:
  assumes "(b1, j1, p) \<in> set (run_player_calls n buf c)"
    and "parse_player b1 j1 p = Some (b, length b, ps)"
  shows "\<exists>c'. chunk_parse buf c = Some (0, b, c')"
proof -
  from assms(1) obtain h where h: "h \<in> set (run_data_heads n buf c)"
    and pc: "(b1, j1, p) \<in> set (player_calls_at h)"
    by (auto simp: run_player_calls_def)
  from data_body_player_failed [OF pc assms(2)] obtain c'
    where "data_body h = Some (Return (b, length b, c'))" by blast
  from run_data_failed [OF h this] show ?thesis by blast
qed

lemma run_player_failed:
  assumes "h \<in> set (run_player_heads n buf c)"
    and "\<And>p. player_body p h = Some (Return (b, length b, p))"
  shows "\<exists>c'. chunk_parse buf c = Some (0, b, c')"
proof -
  from assms(1) obtain pc where pc: "pc \<in> set (run_player_calls n buf c)"
    and h: "h \<in> set (player_heads n pc)"
    by (auto simp: run_player_heads_def)
  obtain b1 j1 p where pc_eq: "pc = (b1, j1, p)" by (metis prod_cases3)
  from player_heads_Return [OF h [unfolded pc_eq] assms(2)]
  have "parse_player b1 j1 p = Some (b, length b, p)" .
  from run_player_call_failed [OF pc [unfolded pc_eq] this] show ?thesis .
qed

lemma run_user_failed:
  assumes "h \<in> set (run_user_heads n buf c)" and "user_body h = Some (Return (Inl b))"
  shows "\<exists>c'. chunk_parse buf c = Some (0, b, c')"
proof -
  from assms(1) obtain hp u where hp: "hp \<in> set (run_player_heads n buf c)"
    and u: "u \<in> set (user_loops_at hp)" and h: "h \<in> set (iter_heads n user_body u)"
    by (auto simp: run_user_heads_def)
  from iter_heads_Return [OF h assms(2)] have "iterate user_body u = Some (Inl b)" .
  from player_body_user_failed [OF u this]
  have "\<And>p. player_body p hp = Some (Return (b, length b, p))" .
  with hp show ?thesis by (rule run_player_failed)
qed

lemma chunk_body_bad_kind:
  assumes "parse_key b j = (SYM_t, b1, j1)" and "parse_enum b1 j1 = (e, b2, j2)"
    and "e \<noteq> SYM_featured" and "e \<noteq> SYM_fen"
  shows "chunk_body (b, j, c) = Some (Return (0, b2, c))"
  using assms by (simp add: chunk_body_def chunk_field_def)

lemma player_body_no_color:
  assumes "parse_key b j = (k, b1, j1)"
    and "player_field k (b1, j1, idx, rt, nm) = Some (Next (b2, j2, None, rt', nm'))"
    and "json_next b2 j2 = (t, b3, j3)" and "tok_type t = JSON_OEND"
  shows "player_body p (b, j, idx, rt, nm) = Some (Return (b3, length b3, p))"
  using assms by (simp add: player_body_def)

lemma player_field_other_color:
  assumes "parse_enum b j = (e, b1, j1)" and "e \<noteq> SYM_black" and "e \<noteq> SYM_white"
  shows "player_field SYM_color (b, j, idx, rt, nm) = Some (Next (b1, j1, idx, rt, nm))"
  using assms by (simp add: player_field_def)

text \<open>
  Claim C3. When a pass of the loop of \<open>chunk_parse\<close> reads the key \<^verbatim>\<open>t\<close> and its value is
  not the string \<^verbatim>\<open>featured\<close> or \<^verbatim>\<open>fen\<close> (another string, or no string at all), \<open>chunk_parse\<close>
  returns 0 at once. A value of \<^verbatim>\<open>color\<close> other than \<^verbatim>\<open>black\<close> and \<^verbatim>\<open>white\<close> leaves the index
  of the player as it was, and when a pass of the loop of any call of \<open>parse_player\<close> in
  the run reaches the closing brace of the player with the index not resolved,
  \<open>chunk_parse\<close> returns 0.
\<close>

theorem unrecognised_enum_is_fatal:
  "((b, j, c1) \<in> set (chunk_heads n buf c) \<and> parse_key b j = (SYM_t, b1, j1) \<and>
    parse_enum b1 j1 = (e, b2, j2) \<and> e \<noteq> SYM_featured \<and> e \<noteq> SYM_fen \<longrightarrow>
      chunk_parse buf c = Some (0, b2, c1)) \<and>
   (parse_enum pb pj = (pe, pb1, pj1) \<and> pe \<noteq> SYM_black \<and> pe \<noteq> SYM_white \<longrightarrow>
      player_field SYM_color (pb, pj, idx, rt, nm) = Some (Next (pb1, pj1, idx, rt, nm))) \<and>
   ((hb, hj, idx, rt, nm) \<in> set (run_player_heads n buf c) \<and> parse_key hb hj = (k, hb1, hj1) \<and>
    player_field k (hb1, hj1, idx, rt, nm) = Some (Next (hb2, hj2, None, rt', nm')) \<and>
    json_next hb2 hj2 = (t, hb3, hj3) \<and> tok_type t = JSON_OEND \<longrightarrow>
      (\<exists>c'. chunk_parse buf c = Some (0, hb3, c')))"
proof (intro conjI impI; (elim conjE)?)
  assume "(b, j, c1) \<in> set (chunk_heads n buf c)" and "parse_key b j = (SYM_t, b1, j1)"
    and "parse_enum b1 j1 = (e, b2, j2)" and "e \<noteq> SYM_featured" and "e \<noteq> SYM_fen"
  then show "chunk_parse buf c = Some (0, b2, c1)"
    by (intro chunk_heads_Return [where h = "(b, j, c1)"] chunk_body_bad_kind)
next
  assume "parse_enum pb pj = (pe, pb1, pj1)" and "pe \<noteq> SYM_black" and "pe \<noteq> SYM_white"
  then show "player_field SYM_color (pb, pj, idx, rt, nm) = Some (Next (pb1, pj1, idx, rt, nm))"
    by (rule player_field_other_color)
next
  assume h: "(hb, hj, idx, rt, nm) \<in> set (run_player_heads n buf c)"
    and a: "parse_key hb hj = (k, hb1, hj1)"
      "player_field k (hb1, hj1, idx, rt, nm) = Some (Next (hb2, hj2, None, rt', nm'))"
      "json_next hb2 hj2 = (t, hb3, hj3)" "tok_type t = JSON_OEND"
  from a have "\<And>p. player_body p (hb, hj, idx, rt, nm) = Some (Return (hb3, length hb3, p))"
    by (rule player_body_no_color)
  with h show "\<exists>c'. chunk_parse buf c = Some (0, hb3, c')" by (rule run_player_failed)
qed

lemma scenario_C_heads:
  "P [(scenario_C, 1, zero_chunk)] \<Longrightarrow> P (chunk_heads 0 scenario_C zero_chunk)"
  apply code_simp
  apply (simp cong: if_cong)
  done

lemma scenario_C_key: "parse_key scenario_C 1 = (SYM_t, scenario_C[3 := CHR 0x00], 5)"
  by code_simp

lemma scenario_C_enum:
  "parse_enum (scenario_C[3 := CHR 0x00]) 5 =
     (SYM_UNKNOWN, scenario_C[3 := CHR 0x00, 11 := CHR 0x00], 12)"
  by code_simp

lemma no_color_head:
  "(no_color[3 := CHR 0x00, 14 := CHR 0x00], 18, None, None, None)
     \<in> set (run_player_heads 0 no_color zero_chunk)"
  by code_simp

lemma no_color_key:
  "parse_key (no_color[3 := CHR 0x00, 14 := CHR 0x00]) 18 =
     (SYM_rating, no_color[3 := CHR 0x00, 14 := CHR 0x00, 25 := CHR 0x00], 27)"
  by code_simp

lemma no_color_field:
  "player_field SYM_rating (no_color[3 := CHR 0x00, 14 := CHR 0x00, 25 := CHR 0x00], 27,
      None, None, None) =
     Some (Next (no_color[3 := CHR 0x00, 14 := CHR 0x00, 25 := CHR 0x00], 28,
       None, Some 27, None))"
  by code_simp

lemma no_color_close:
  "json_next (no_color[3 := CHR 0x00, 14 := CHR 0x00, 25 := CHR 0x00]) 28 =
     (\<lparr>tok_off = 28, tok_len = 1, tok_type = JSON_OEND\<rparr>,
      no_color[3 := CHR 0x00, 14 := CHR 0x00, 25 := CHR 0x00], 29)"
  by code_simp

theorem unrecognised_enum_is_fatal_witness:
  "(scenario_C, 1, zero_chunk) \<in> set (chunk_heads 0 scenario_C zero_chunk) \<and>
   parse_key scenario_C 1 = (SYM_t, scenario_C[3 := CHR 0x00], 5) \<and>
   parse_enum (scenario_C[3 := CHR 0x00]) 5 =
     (SYM_UNKNOWN, scenario_C[3 := CHR 0x00, 11 := CHR 0x00], 12) \<and>
   chunk_parse scenario_C zero_chunk =
     Some (0, scenario_C[3 := CHR 0x00, 11 := CHR 0x00], zero_chunk) \<and>
   player_field SYM_color (scenario_C[3 := CHR 0x00], 5, None, None, None) =
     Some (Next (scenario_C[3 := CHR 0x00, 11 := CHR 0x00], 12, None, None, None)) \<and>
   (no_color[3 := CHR 0x00, 14 := CHR 0x00], 18, None, None, None)
     \<in> set (run_player_heads 0 no_color zero_chunk) \<and>
   parse_key (no_color[3 := CHR 0x00, 14 := CHR 0x00]) 18 =
     (SYM_rating, no_color[3 := CHR 0x00, 14 := CHR 0x00, 25 := CHR 0x00], 27) \<and>
   player_field SYM_rating (no_color[3 := CHR 0x00, 14 := CHR 0x00, 25 := CHR 0x00], 27,
      None, None, None) =
     Some (Next (no_color[3 := CHR 0x00, 14 := CHR 0x00, 25 := CHR 0x00], 28,
       None, Some 27, None)) \<and>
   json_next (no_color[3 := CHR 0x00, 14 := CHR 0x00, 25 := CHR 0x00]) 28 =
     (\<lparr>tok_off = 28, tok_len = 1, tok_type = JSON_OEND\<rparr>,
      no_color[3 := CHR 0x00, 14 := CHR 0x00, 25 := CHR 0x00], 29) \<and>
   (\<exists>c'. chunk_parse no_color zero_chunk =
      Some (0, no_color[3 := CHR 0x00, 14 := CHR 0x00, 25 := CHR 0x00], c'))"
proof -
  have hC: "chunk_heads 0 scenario_C zero_chunk = [(scenario_C, 1, zero_chunk)]"
    by (rule scenario_C_heads) (rule refl)
  then have mC: "(scenario_C, 1, zero_chunk) \<in> set (chunk_heads 0 scenario_C zero_chunk)"
    by simp
  have ne: "SYM_UNKNOWN \<noteq> SYM_featured" "SYM_UNKNOWN \<noteq> SYM_fen"
    "SYM_UNKNOWN \<noteq> SYM_black" "SYM_UNKNOWN \<noteq> SYM_white"
    by simp_all
  have ty: "tok_type \<lparr>tok_off = 28, tok_len = 1, tok_type = JSON_OEND\<rparr> = JSON_OEND" by simp
  note a = unrecognised_enum_is_fatal [of scenario_C 1 zero_chunk 0 scenario_C zero_chunk
      "scenario_C[3 := CHR 0x00]" 5 SYM_UNKNOWN "scenario_C[3 := CHR 0x00, 11 := CHR 0x00]" 12
      "scenario_C[3 := CHR 0x00]" 5 SYM_UNKNOWN "scenario_C[3 := CHR 0x00, 11 := CHR 0x00]" 12
      None None None]
  from a mC scenario_C_key scenario_C_enum ne
  have 1: "chunk_parse scenario_C zero_chunk =
     Some (0, scenario_C[3 := CHR 0x00, 11 := CHR 0x00], zero_chunk)"
    by blast
  from a scenario_C_enum ne
  have 2: "player_field SYM_color (scenario_C[3 := CHR 0x00], 5, None, None, None) =
     Some (Next (scenario_C[3 := CHR 0x00, 11 := CHR 0x00], 12, None, None, None))"
    by blast
  note b = unrecognised_enum_is_fatal [where buf = no_color and c = zero_chunk and n = 0
      and hb = "no_color[3 := CHR 0x00, 14 := CHR 0x00]" and hj = 18
      and idx = None and rt = None and nm = None and k = SYM_rating
      and ?hb1.0 = "no_color[3 := CHR 0x00, 14 := CHR 0x00, 25 := CHR 0x00]" and ?hj1.0 = 27
      and ?hb2.0 = "no_color[3 := CHR 0x00, 14 := CHR 0x00, 25 := CHR 0x00]" and ?hj2.0 = 28
      and rt' = "Some 27" and nm' = None
      and t = "\<lparr>tok_off = 28, tok_len = 1, tok_type = JSON_OEND\<rparr>"
      and ?hb3.0 = "no_color[3 := CHR 0x00, 14 := CHR 0x00, 25 := CHR 0x00]" and ?hj3.0 = 29,
      THEN conjunct2, THEN conjunct2]
  from b no_color_head no_color_key no_color_field no_color_close ty
  have 3: "\<exists>c'. chunk_parse no_color zero_chunk =
      Some (0, no_color[3 := CHR 0x00, 14 := CHR 0x00, 25 := CHR 0x00], c')"
    by blast
  from mC scenario_C_key scenario_C_enum 1 2 no_color_head no_color_key no_color_field
    no_color_close 3
  show ?thesis by (intro conjI)
qed

lemma last_Cons_append: "last (x # xs @ ys) = last (last (x # xs) # ys)"
  by (cases ys) simp_all

lemma concat_map_concat:
  "concat (map f (concat xss)) = concat (map (\<lambda>xs. concat (map f xs)) xss)"
  by (induction xss) simp_all

text \<open>
  A value that each pass either keeps or overwrites is, when the loop returns, the last
  of the values written, or the initial one. The measure bounds the number of passes.
\<close>

lemma iterate_log:
  assumes "iterate body s = Some r" and "I s" and "m s \<le> n"
    and inv: "\<And>s s'. I s \<Longrightarrow> body s = Some (Next s') \<Longrightarrow> I s' \<and> m s' < (m s :: nat)"
    and step: "\<And>s s'. I s \<Longrightarrow> body s = Some (Next s') \<Longrightarrow> g s' = last (g s # w s)"
    and ret: "\<And>s r. I s \<Longrightarrow> body s = Some (Return r) \<Longrightarrow> gr r = last (g s # w s)"
  shows "gr r = last (g s # concat (map w (iter_heads n body s)))"
  using assms(1-3)
proof (induction n arbitrary: s)
  case 0
  from 0(1) obtain x where x: "body s = Some x"
    by (cases "body s") (simp_all add: iterate_None [of body s])
  show ?case
  proof (cases x)
    case (Return r')
    with x 0(1) iterate_Return [of body s r'] have "r' = r" by simp
    with ret [OF 0(2)] x Return show ?thesis by simp
  next
    case (Next s')
    with inv [OF 0(2)] x 0(3) show ?thesis by fastforce
  qed
next
  case (Suc n)
  from Suc.prems(1) obtain x where x: "body s = Some x"
    by (cases "body s") (simp_all add: iterate_None [of body s])
  show ?case
  proof (cases x)
    case (Return r')
    with x Suc.prems(1) iterate_Return [of body s r'] have "r' = r" by simp
    with ret [OF Suc.prems(2)] x Return show ?thesis by simp
  next
    case (Next s')
    with x have b: "body s = Some (Next s')" by simp
    from inv [OF Suc.prems(2) b] Suc.prems(3) have I': "I s'" and m': "m s' \<le> n" by simp_all
    from Suc.prems(1) iterate_Next [of body s s', OF b] have "iterate body s' = Some r" by simp
    from Suc.IH [OF this I' m']
    have "gr r = last (g s' # concat (map w (iter_heads n body s')))" .
    also have "g s' = last (g s # w s)" using Suc.prems(2) b by (rule step)
    finally show ?thesis using b by (simp add: last_Cons_append [symmetric])
  qed
qed

lemma walk_inv_chunk:
  assumes "(case s of (b, j, c) \<Rightarrow> j \<le> length b \<and> length b = L)"
    and "chunk_body s = Some (Next s')"
  shows "(case s' of (b, j, c) \<Rightarrow> j \<le> length b \<and> length b = L) \<and>
     (case s' of (b, j, c) \<Rightarrow> length b - j) < (case s of (b, j, c) \<Rightarrow> length b - j)"
proof -
  obtain b j c where s: "s = (b, j, c)" by (metis prod_cases3)
  obtain b' j' c' where s': "s' = (b', j', c')" by (metis prod_cases3)
  from assms s have le: "j \<le> length b" and L: "length b = L" by simp_all
  from chunk_body_step [OF le, of c] assms(2) s s'
  have "moves b j b' j'" and "j < j'" by simp_all
  with s s' L show ?thesis by (auto simp: moves_def)
qed

lemma walk_inv_data:
  assumes "(case s of (b, j, c) \<Rightarrow> j \<le> length b \<and> length b = L)"
    and "data_body s = Some (Next s')"
  shows "(case s' of (b, j, c) \<Rightarrow> j \<le> length b \<and> length b = L) \<and>
     (case s' of (b, j, c) \<Rightarrow> length b - j) < (case s of (b, j, c) \<Rightarrow> length b - j)"
proof -
  obtain b j c where s: "s = (b, j, c)" by (metis prod_cases3)
  obtain b' j' c' where s': "s' = (b', j', c')" by (metis prod_cases3)
  from assms s have le: "j \<le> length b" and L: "length b = L" by simp_all
  from data_body_step [OF le, of c] assms(2) s s'
  have "moves b j b' j'" and "j < j'" by simp_all
  with s s' L show ?thesis by (auto simp: moves_def)
qed

lemma walk_inv_player:
  assumes "(case s of (b, j, x) \<Rightarrow> j \<le> length b \<and> length b = L)"
    and "player_body p s = Some (Next s')"
  shows "(case s' of (b, j, x) \<Rightarrow> j \<le> length b \<and> length b = L) \<and>
     (case s' of (b, j, x) \<Rightarrow> length b - j) < (case s of (b, j, x) \<Rightarrow> length b - j)"
proof -
  obtain b j idx rt nm where s: "s = (b, j, idx, rt, nm)" by (metis prod_cases5)
  obtain b' j' idx' rt' nm' where s': "s' = (b', j', idx', rt', nm')" by (metis prod_cases5)
  from assms s have le: "j \<le> length b" and L: "length b = L" by simp_all
  from assms(2) s s' have "player_body p (b, j, idx, rt, nm) = Some (Next (b', j', idx', rt', nm'))"
    by simp
  from player_body_progress [OF this le] have "moves b j b' j'" and "j < j'" by simp_all
  with s s' L show ?thesis by (auto simp: moves_def)
qed

subsection \<open>The kind\<close>

lemma chunk_body_kind:
  assumes "chunk_body s = Some x"
  shows "case x of
           Return (r, b', c') \<Rightarrow> type c' = last (type (snd (snd s)) # kind_write_at s)
         | Next (b', j', c') \<Rightarrow> type c' = last (type (snd (snd s)) # kind_write_at s)"
proof -
  obtain b j c where s: "s = (b, j, c)" by (metis prod_cases3)
  obtain k b1 j1 where pk: "parse_key b j = (k, b1, j1)" by (metis prod_cases3)
  from assms s pk obtain y where cf: "chunk_field k (b1, j1, c) = Some y"
    by (auto simp: chunk_body_def split: option.splits)
  have y: "case y of Return (b', c') \<Rightarrow> type c' = last (type c # kind_write_at s)
         | Next (b', j', c') \<Rightarrow> type c' = last (type c # kind_write_at s)"
  proof -
    consider (t) "k = SYM_t" | (d) "k = SYM_d" "k \<noteq> SYM_t" | (other) "k \<noteq> SYM_t" "k \<noteq> SYM_d"
      by blast
    then show ?thesis
    proof cases
      case t
      with cf s pk show ?thesis
        by (auto simp: chunk_field_def kind_write_at_def split: prod.splits if_splits)
    next
      case d
      with cf obtain b2 j2 c2 where pd: "parse_data b1 j1 c = Some (b2, j2, c2)"
        and y: "y = Next (b2, j2, c2)"
        by (auto simp: chunk_field_def split: option.splits)
      from parse_data_type [OF pd] y d s pk show ?thesis by (simp add: kind_write_at_def)
    next
      case other
      with cf s pk show ?thesis
        by (auto simp: chunk_field_def kind_write_at_def split: prod.splits)
    qed
  qed
  from y assms s pk cf show ?thesis
    by (auto simp: chunk_body_def split: ctl.splits prod.splits if_splits)
qed

lemma chunk_parse_kind:
  assumes "chunk_parse buf c = Some (r, b, c')"
  shows "type c' = last (type c # kind_writes (length buf) buf c)"
proof -
  obtain t b0 j0 where jn: "json_next buf 0 = (t, b0, j0)" by (metis prod_cases3)
  show ?thesis
  proof (cases "tok_type t = JSON_OBEG")
    case False
    with assms jn show ?thesis by (simp add: chunk_parse_def kind_writes_def chunk_heads_def)
  next
    case True
    with assms jn have it: "iterate chunk_body (b0, j0, c) = Some (r, b, c')"
      by (simp add: chunk_parse_def)
    from json_next_moves [OF jn] have m0: "moves buf 0 b0 j0" by simp
    then have I0: "case (b0, j0, c) of (b, j, c) \<Rightarrow> j \<le> length b \<and> length b = length buf"
      and n0: "(case (b0, j0, c) of (b, j, c) \<Rightarrow> length b - j) \<le> length buf"
      by (simp_all add: moves_def)
    have "(case (r, b, c') of (r, b, c') \<Rightarrow> type c') =
        last ((case (b0, j0, c) of (b, j, c) \<Rightarrow> type c) #
          concat (map kind_write_at (iter_heads (length buf) chunk_body (b0, j0, c))))"
    proof (rule iterate_log [OF it, where I = "\<lambda>(b, j, c). j \<le> length b \<and> length b = length buf"
          and m = "\<lambda>(b, j, c). length b - j"])
      show "case (b0, j0, c) of (b, j, c) \<Rightarrow> j \<le> length b \<and> length b = length buf" by (rule I0)
      show "(case (b0, j0, c) of (b, j, c) \<Rightarrow> length b - j) \<le> length buf" by (rule n0)
    next
      fix s s' :: walk_vars
      assume "case s of (b, j, c) \<Rightarrow> j \<le> length b \<and> length b = length buf"
        and "chunk_body s = Some (Next s')"
      then show "(case s' of (b, j, c) \<Rightarrow> j \<le> length b \<and> length b = length buf) \<and>
          (case s' of (b, j, c) \<Rightarrow> length b - j) < (case s of (b, j, c) \<Rightarrow> length b - j)"
        by (rule walk_inv_chunk)
    next
      fix s s' :: walk_vars
      assume "chunk_body s = Some (Next s')"
      from chunk_body_kind [OF this]
      show "(case s' of (b, j, c) \<Rightarrow> type c) = last ((case s of (b, j, c) \<Rightarrow> type c) # kind_write_at s)"
        by (cases s; cases s') simp
    next
      fix s :: walk_vars and r :: "int \<times> buffer \<times> chunk"
      assume "chunk_body s = Some (Return r)"
      from chunk_body_kind [OF this]
      show "(case r of (r, b, c') \<Rightarrow> type c') =
          last ((case s of (b, j, c) \<Rightarrow> type c) # kind_write_at s)"
        by (cases s; cases r) simp
    qed
    with jn True show ?thesis by (simp add: kind_writes_def chunk_heads_def)
  qed
qed

subsection \<open>The position\<close>

lemma data_body_fen:
  assumes "data_body s = Some x"
  shows "case x of
           Return (b', j', c') \<Rightarrow> fen c' = last (fen (snd (snd s)) # fen_write_at s)
         | Next (b', j', c') \<Rightarrow> fen c' = last (fen (snd (snd s)) # fen_write_at s)"
proof -
  obtain b j c where s: "s = (b, j, c)" by (metis prod_cases3)
  obtain k b1 j1 where pk: "parse_key b j = (k, b1, j1)" by (metis prod_cases3)
  from assms s pk obtain y where df: "data_field k (b1, j1, c) = Some y"
    by (auto simp: data_body_def split: option.splits)
  have y: "case y of Return (b', c') \<Rightarrow> fen c' = last (fen c # fen_write_at s)
         | Next (b', j', c') \<Rightarrow> fen c' = last (fen c # fen_write_at s)"
  proof -
    consider (f) "k = SYM_fen" | (p) "k = SYM_players" | (other) "k \<noteq> SYM_fen" "k \<noteq> SYM_players"
      by blast
    then show ?thesis
    proof cases
      case f
      with df s pk show ?thesis
        by (auto simp: data_field_def fen_write_at_def split: prod.splits)
    next
      case p
      with df s pk show ?thesis
        by (auto simp: data_field_def fen_write_at_def split: prod.splits if_splits option.splits)
    next
      case other
      with df s pk show ?thesis
        by (auto simp: data_field_def fen_write_at_def split: prod.splits)
    qed
  qed
  from y assms s pk df show ?thesis
    by (auto simp: data_body_def split: ctl.splits prod.splits if_splits)
qed

lemma parse_data_fen:
  assumes "parse_data buf off c = Some (b, j, c')" and "off \<le> length buf"
  shows "fen c' = last (fen c # concat (map fen_write_at (data_heads (length buf) (buf, off, c))))"
proof -
  obtain t b0 j0 where jn: "json_next buf off = (t, b0, j0)" by (metis prod_cases3)
  show ?thesis
  proof (cases "tok_type t = JSON_OBEG")
    case False
    with assms jn show ?thesis by (simp add: parse_data_def data_heads_def)
  next
    case True
    with assms jn have it: "iterate data_body (b0, j0, c) = Some (b, j, c')"
      by (simp add: parse_data_def)
    from json_next_moves [OF jn assms(2)] have m0: "moves buf off b0 j0" .
    then have I0: "case (b0, j0, c) of (b, j, c) \<Rightarrow> j \<le> length b \<and> length b = length buf"
      and n0: "(case (b0, j0, c) of (b, j, c) \<Rightarrow> length b - j) \<le> length buf"
      by (simp_all add: moves_def)
    have "(case (b, j, c') of (b, j, c') \<Rightarrow> fen c') =
        last ((case (b0, j0, c) of (b, j, c) \<Rightarrow> fen c) #
          concat (map fen_write_at (iter_heads (length buf) data_body (b0, j0, c))))"
    proof (rule iterate_log [OF it, where I = "\<lambda>(b, j, c). j \<le> length b \<and> length b = length buf"
          and m = "\<lambda>(b, j, c). length b - j"])
      show "case (b0, j0, c) of (b, j, c) \<Rightarrow> j \<le> length b \<and> length b = length buf" by (rule I0)
      show "(case (b0, j0, c) of (b, j, c) \<Rightarrow> length b - j) \<le> length buf" by (rule n0)
    next
      fix s s' :: walk_vars
      assume "case s of (b, j, c) \<Rightarrow> j \<le> length b \<and> length b = length buf"
        and "data_body s = Some (Next s')"
      then show "(case s' of (b, j, c) \<Rightarrow> j \<le> length b \<and> length b = length buf) \<and>
          (case s' of (b, j, c) \<Rightarrow> length b - j) < (case s of (b, j, c) \<Rightarrow> length b - j)"
        by (rule walk_inv_data)
    next
      fix s s' :: walk_vars
      assume "data_body s = Some (Next s')"
      from data_body_fen [OF this]
      show "(case s' of (b, j, c) \<Rightarrow> fen c) = last ((case s of (b, j, c) \<Rightarrow> fen c) # fen_write_at s)"
        by (cases s; cases s') simp
    next
      fix s r :: walk_vars
      assume "data_body s = Some (Return r)"
      from data_body_fen [OF this]
      show "(case r of (b, j, c') \<Rightarrow> fen c') =
          last ((case s of (b, j, c) \<Rightarrow> fen c) # fen_write_at s)"
        by (cases s; cases r) simp
    qed
    with jn True show ?thesis by (simp add: data_heads_def)
  qed
qed

lemma chunk_body_fen:
  assumes "chunk_body (b, j, c) = Some x" and "j \<le> length b"
  shows "case x of
      Return (r, b', c') \<Rightarrow> fen c' = last (fen c #
        concat (map fen_write_at (concat (map (data_heads (length b)) (data_calls_at (b, j, c))))))
    | Next (b', j', c') \<Rightarrow> fen c' = last (fen c #
        concat (map fen_write_at (concat (map (data_heads (length b)) (data_calls_at (b, j, c))))))"
proof -
  obtain k b1 j1 where pk: "parse_key b j = (k, b1, j1)" by (metis prod_cases3)
  from parse_key_moves [OF pk assms(2)] have le1: "j1 \<le> length b1" and len1: "length b1 = length b"
    by (simp_all add: moves_def)
  from assms pk obtain y where cf: "chunk_field k (b1, j1, c) = Some y"
    by (auto simp: chunk_body_def split: option.splits)
  let ?w = "concat (map fen_write_at (concat (map (data_heads (length b)) (data_calls_at (b, j, c)))))"
  have y: "case y of Return (b', c') \<Rightarrow> fen c' = last (fen c # ?w)
         | Next (b', j', c') \<Rightarrow> fen c' = last (fen c # ?w)"
  proof -
    consider (t) "k = SYM_t" | (d) "k = SYM_d" "k \<noteq> SYM_t" | (other) "k \<noteq> SYM_t" "k \<noteq> SYM_d"
      by blast
    then show ?thesis
    proof cases
      case t
      with cf pk show ?thesis
        by (auto simp: chunk_field_def data_calls_at_def split: prod.splits if_splits)
    next
      case d
      with cf obtain b2 j2 c2 where pd: "parse_data b1 j1 c = Some (b2, j2, c2)"
        and y: "y = Next (b2, j2, c2)"
        by (auto simp: chunk_field_def split: option.splits)
      from parse_data_fen [OF pd le1] y d pk len1 show ?thesis
        by (simp add: data_calls_at_def)
    next
      case other
      with cf pk show ?thesis
        by (auto simp: chunk_field_def data_calls_at_def split: prod.splits)
    qed
  qed
  from y assms pk cf show ?thesis
    by (auto simp: chunk_body_def split: ctl.splits prod.splits if_splits)
qed

lemma chunk_parse_fen:
  assumes "chunk_parse buf c = Some (r, b, c')"
  shows "fen c' = last (fen c # fen_writes (length buf) buf c)"
proof -
  obtain t b0 j0 where jn: "json_next buf 0 = (t, b0, j0)" by (metis prod_cases3)
  show ?thesis
  proof (cases "tok_type t = JSON_OBEG")
    case False
    with assms jn show ?thesis
      by (simp add: chunk_parse_def fen_writes_def run_data_heads_def chunk_heads_def)
  next
    case True
    with assms jn have it: "iterate chunk_body (b0, j0, c) = Some (r, b, c')"
      by (simp add: chunk_parse_def)
    let ?w = "\<lambda>s. concat (map fen_write_at (concat (map (data_heads (length buf)) (data_calls_at s))))"
    from json_next_moves [OF jn] have m0: "moves buf 0 b0 j0" by simp
    then have I0: "case (b0, j0, c) of (b, j, c) \<Rightarrow> j \<le> length b \<and> length b = length buf"
      and n0: "(case (b0, j0, c) of (b, j, c) \<Rightarrow> length b - j) \<le> length buf"
      by (simp_all add: moves_def)
    have "(case (r, b, c') of (r, b, c') \<Rightarrow> fen c') =
        last ((case (b0, j0, c) of (b, j, c) \<Rightarrow> fen c) #
          concat (map ?w (iter_heads (length buf) chunk_body (b0, j0, c))))"
    proof (rule iterate_log [OF it, where I = "\<lambda>(b, j, c). j \<le> length b \<and> length b = length buf"
          and m = "\<lambda>(b, j, c). length b - j"])
      show "case (b0, j0, c) of (b, j, c) \<Rightarrow> j \<le> length b \<and> length b = length buf" by (rule I0)
      show "(case (b0, j0, c) of (b, j, c) \<Rightarrow> length b - j) \<le> length buf" by (rule n0)
    next
      fix s s' :: walk_vars
      assume "case s of (b, j, c) \<Rightarrow> j \<le> length b \<and> length b = length buf"
        and "chunk_body s = Some (Next s')"
      then show "(case s' of (b, j, c) \<Rightarrow> j \<le> length b \<and> length b = length buf) \<and>
          (case s' of (b, j, c) \<Rightarrow> length b - j) < (case s of (b, j, c) \<Rightarrow> length b - j)"
        by (rule walk_inv_chunk)
    next
      fix s s' :: walk_vars
      assume I: "case s of (b, j, c) \<Rightarrow> j \<le> length b \<and> length b = length buf"
        and b: "chunk_body s = Some (Next s')"
      obtain sb sj sc where s: "s = (sb, sj, sc)" by (metis prod_cases3)
      from I s have "sj \<le> length sb" and len: "length sb = length buf" by simp_all
      from chunk_body_fen [OF b [unfolded s] this(1)] len s
      show "(case s' of (b, j, c) \<Rightarrow> fen c) = last ((case s of (b, j, c) \<Rightarrow> fen c) # ?w s)"
        by (cases s') simp
    next
      fix s :: walk_vars and r :: "int \<times> buffer \<times> chunk"
      assume I: "case s of (b, j, c) \<Rightarrow> j \<le> length b \<and> length b = length buf"
        and b: "chunk_body s = Some (Return r)"
      obtain sb sj sc where s: "s = (sb, sj, sc)" by (metis prod_cases3)
      from I s have "sj \<le> length sb" and len: "length sb = length buf" by simp_all
      from chunk_body_fen [OF b [unfolded s] this(1)] len s
      show "(case r of (r, b, c') \<Rightarrow> fen c') = last ((case s of (b, j, c) \<Rightarrow> fen c) # ?w s)"
        by (cases r) simp
    qed
    moreover have "concat (map ?w (iter_heads (length buf) chunk_body (b0, j0, c))) =
        fen_writes (length buf) buf c"
      using jn True
      by (simp add: fen_writes_def run_data_heads_def chunk_heads_def concat_map_concat comp_def)
    ultimately show ?thesis by simp
  qed
qed

subsection \<open>The player slots\<close>

lemma player_body_slot:
  assumes "player_body p s = Some x"
  shows "case x of
           Next s' \<Rightarrow> commit_at i s = []
         | Return (b', j', p') \<Rightarrow> p' i = last (p i # commit_at i s)"
proof -
  obtain b j idx rt nm where s: "s = (b, j, idx, rt, nm)" by (metis prod_cases5)
  obtain k b1 j1 where pk: "parse_key b j = (k, b1, j1)" by (metis prod_cases3)
  from assms s pk obtain y where pf: "player_field k (b1, j1, idx, rt, nm) = Some y"
    by (auto simp: player_body_def split: option.splits)
  show ?thesis
  proof (cases y)
    case (Return b2)
    with assms s pk pf show ?thesis by (auto simp: player_body_def commit_at_def)
  next
    case (Next v)
    obtain b2 j2 idx2 rt2 nm2 where v: "v = (b2, j2, idx2, rt2, nm2)" by (metis prod_cases5)
    obtain t b3 j3 where jn: "json_next b2 j2 = (t, b3, j3)" by (metis prod_cases3)
    from assms s pk pf Next v jn show ?thesis
      by (auto simp: player_body_def commit_at_def split: option.splits if_splits)
  qed
qed

lemma parse_player_slot:
  assumes "parse_player buf off p = Some (b, j, p')" and "off \<le> length buf"
  shows "p' i = last (p i # concat (map (commit_at i) (player_heads (length buf) (buf, off, p))))"
proof -
  obtain t b0 j0 where jn: "json_next buf off = (t, b0, j0)" by (metis prod_cases3)
  show ?thesis
  proof (cases "tok_type t = JSON_OBEG")
    case False
    with assms jn show ?thesis by (simp add: parse_player_def player_heads_def)
  next
    case True
    let ?s0 = "(b0, j0, None :: nat option, None :: cptr, None :: cptr)"
    from True assms jn have it: "iterate (player_body p) ?s0 = Some (b, j, p')"
      by (simp add: parse_player_def)
    from json_next_moves [OF jn assms(2)] have m0: "moves buf off b0 j0" .
    then have I0: "case ?s0 of (b, j, x) \<Rightarrow> j \<le> length b \<and> length b = length buf"
      and n0: "(case ?s0 of (b, j, x) \<Rightarrow> length b - j) \<le> length buf"
      by (simp_all add: moves_def)
    have "(case (b, j, p') of (b, j, p') \<Rightarrow> p' i) =
        last ((\<lambda>s :: player_vars. p i) ?s0 #
          concat (map (commit_at i) (iter_heads (length buf) (player_body p) ?s0)))"
    proof (rule iterate_log [OF it, where I = "\<lambda>(b, j, x). j \<le> length b \<and> length b = length buf"
          and m = "\<lambda>(b, j, x). length b - j"])
      show "case ?s0 of (b, j, x) \<Rightarrow> j \<le> length b \<and> length b = length buf" by (rule I0)
      show "(case ?s0 of (b, j, x) \<Rightarrow> length b - j) \<le> length buf" by (rule n0)
    next
      fix s s' :: player_vars
      assume "case s of (b, j, x) \<Rightarrow> j \<le> length b \<and> length b = length buf"
        and "player_body p s = Some (Next s')"
      then show "(case s' of (b, j, x) \<Rightarrow> j \<le> length b \<and> length b = length buf) \<and>
          (case s' of (b, j, x) \<Rightarrow> length b - j) < (case s of (b, j, x) \<Rightarrow> length b - j)"
        by (rule walk_inv_player)
    next
      fix s s' :: player_vars
      assume "player_body p s = Some (Next s')"
      from player_body_slot [OF this, of i]
      show "p i = last (p i # commit_at i s)" by simp
    next
      fix s :: player_vars and r :: "buffer \<times> nat \<times> (nat \<Rightarrow> player)"
      assume "player_body p s = Some (Return r)"
      from player_body_slot [OF this, of i]
      show "(case r of (b, j, p') \<Rightarrow> p' i) = last (p i # commit_at i s)"
        by (cases r) simp
    qed
    with jn True show ?thesis by (simp add: player_heads_def)
  qed
qed

lemma data_field_players_slot:
  assumes "data_field SYM_players (b1, j1, c) = Some y" and "j1 \<le> length b1"
  shows "\<exists>calls. (case json_next b1 j1 of (t, b2, j2) \<Rightarrow>
             if tok_type t \<noteq> JSON_ABEG then []
             else (b2, j2, players c) # second_call (b2, j2, players c)) = calls \<and>
     (case y of
        Return (b', c') \<Rightarrow> players c' i = last (players c i #
          concat (map (commit_at i) (concat (map (player_heads (length b1)) calls))))
      | Next (b', j', c') \<Rightarrow> players c' i = last (players c i #
          concat (map (commit_at i) (concat (map (player_heads (length b1)) calls)))))"
proof -
  obtain t b2 j2 where jn: "json_next b1 j1 = (t, b2, j2)" by (metis prod_cases3)
  from json_next_moves [OF jn assms(2)] have le2: "j2 \<le> length b2" and len2: "length b2 = length b1"
    by (simp_all add: moves_def)
  show ?thesis
  proof (cases "tok_type t = JSON_ABEG")
    case False
    with assms(1) jn show ?thesis by (auto simp: data_field_def)
  next
    case True
    with assms(1) jn obtain b3 j3 ps1 where p1: "parse_player b2 j2 (players c) = Some (b3, j3, ps1)"
      by (auto simp: data_field_def split: option.splits)
    from parse_player_result [OF le2, of "players c"] p1 have m3: "moves b2 j2 b3 j3" by simp
    then have le3: "j3 \<le> length b3" and len3: "length b3 = length b1"
      using len2 by (simp_all add: moves_def)
    let ?W1 = "concat (map (commit_at i) (player_heads (length b1) (b2, j2, players c)))"
    from parse_player_slot [OF p1 le2, of i] len2
    have s1: "ps1 i = last (players c i # ?W1)" by simp
    obtain t3 b4 j4 where jn3: "json_next b3 j3 = (t3, b4, j4)" by (metis prod_cases3)
    from json_next_moves [OF jn3 le3] have le4: "j4 \<le> length b4" and len4: "length b4 = length b1"
      using len3 by (simp_all add: moves_def)
    show ?thesis
    proof (cases "tok_type t3 = JSON_COMMA")
      case False
      with assms(1) jn True p1 jn3 have y: "y = Return (b4, c\<lparr>players := ps1\<rparr>)"
        by (simp add: data_field_def)
      from False p1 jn3 have "second_call (b2, j2, players c) = []"
        by (simp add: second_call_def)
      with y s1 jn True show ?thesis by simp
    next
      case comma: True
      with assms(1) jn True p1 jn3 obtain b5 j5 ps2
        where p2: "parse_player b4 j4 ps1 = Some (b5, j5, ps2)"
        by (auto simp: data_field_def split: option.splits)
      let ?W2 = "concat (map (commit_at i) (player_heads (length b1) (b4, j4, ps1)))"
      from parse_player_slot [OF p2 le4, of i] len4
      have s2: "ps2 i = last (ps1 i # ?W2)" by simp
      with s1 have s12: "ps2 i = last (players c i # ?W1 @ ?W2)"
        by (simp only: last_Cons_append)
      from comma p1 jn3 have sc: "second_call (b2, j2, players c) = [(b4, j4, ps1)]"
        by (simp add: second_call_def)
      from assms(1) jn True p1 jn3 comma p2
      have "\<exists>b6. y = Return (b6, c\<lparr>players := ps2\<rparr>) \<or>
          (\<exists>j6. y = Next (b6, j6, c\<lparr>players := ps2\<rparr>))"
        by (auto simp: data_field_def split: prod.splits if_splits)
      with s12 sc jn True show ?thesis by auto
    qed
  qed
qed

lemma data_body_slot:
  assumes "data_body (b, j, c) = Some x" and "j \<le> length b"
  shows "case x of
      Return (b', j', c') \<Rightarrow> players c' i = last (players c i #
        concat (map (commit_at i) (concat (map (player_heads (length b)) (player_calls_at (b, j, c))))))
    | Next (b', j', c') \<Rightarrow> players c' i = last (players c i #
        concat (map (commit_at i) (concat (map (player_heads (length b)) (player_calls_at (b, j, c))))))"
proof -
  obtain k b1 j1 where pk: "parse_key b j = (k, b1, j1)" by (metis prod_cases3)
  from parse_key_moves [OF pk assms(2)] have le1: "j1 \<le> length b1" and len1: "length b1 = length b"
    by (simp_all add: moves_def)
  from assms pk obtain y where df: "data_field k (b1, j1, c) = Some y"
    by (auto simp: data_body_def split: option.splits)
  let ?w = "concat (map (commit_at i) (concat (map (player_heads (length b)) (player_calls_at (b, j, c)))))"
  have y: "case y of Return (b', c') \<Rightarrow> players c' i = last (players c i # ?w)
         | Next (b', j', c') \<Rightarrow> players c' i = last (players c i # ?w)"
  proof -
    consider (f) "k = SYM_fen" | (p) "k = SYM_players" | (other) "k \<noteq> SYM_fen" "k \<noteq> SYM_players"
      by blast
    then show ?thesis
    proof cases
      case f
      with df pk show ?thesis
        by (auto simp: data_field_def player_calls_at_def split: prod.splits)
    next
      case p
      from data_field_players_slot [OF df [unfolded p] le1, of i] pk p len1
      show ?thesis by (cases y) (auto simp: player_calls_at_def)
    next
      case other
      with df pk show ?thesis
        by (auto simp: data_field_def player_calls_at_def split: prod.splits)
    qed
  qed
  from y assms pk df show ?thesis
    by (auto simp: data_body_def split: ctl.splits prod.splits if_splits)
qed

lemma parse_data_slot:
  assumes "parse_data buf off c = Some (b, j, c')" and "off \<le> length buf"
  shows "players c' i = last (players c i #
     concat (map (\<lambda>s. concat (map (commit_at i)
         (concat (map (player_heads (length buf)) (player_calls_at s)))))
       (data_heads (length buf) (buf, off, c))))"
proof -
  let ?w = "\<lambda>s. concat (map (commit_at i) (concat (map (player_heads (length buf)) (player_calls_at s))))"
  obtain t b0 j0 where jn: "json_next buf off = (t, b0, j0)" by (metis prod_cases3)
  show ?thesis
  proof (cases "tok_type t = JSON_OBEG")
    case False
    with assms jn show ?thesis by (simp add: parse_data_def data_heads_def)
  next
    case True
    with assms jn have it: "iterate data_body (b0, j0, c) = Some (b, j, c')"
      by (simp add: parse_data_def)
    from json_next_moves [OF jn assms(2)] have m0: "moves buf off b0 j0" .
    then have I0: "case (b0, j0, c) of (b, j, c) \<Rightarrow> j \<le> length b \<and> length b = length buf"
      and n0: "(case (b0, j0, c) of (b, j, c) \<Rightarrow> length b - j) \<le> length buf"
      by (simp_all add: moves_def)
    have "(case (b, j, c') of (b, j, c') \<Rightarrow> players c' i) =
        last ((case (b0, j0, c) of (b, j, c) \<Rightarrow> players c i) #
          concat (map ?w (iter_heads (length buf) data_body (b0, j0, c))))"
    proof (rule iterate_log [OF it, where I = "\<lambda>(b, j, c). j \<le> length b \<and> length b = length buf"
          and m = "\<lambda>(b, j, c). length b - j"])
      show "case (b0, j0, c) of (b, j, c) \<Rightarrow> j \<le> length b \<and> length b = length buf" by (rule I0)
      show "(case (b0, j0, c) of (b, j, c) \<Rightarrow> length b - j) \<le> length buf" by (rule n0)
    next
      fix s s' :: walk_vars
      assume "case s of (b, j, c) \<Rightarrow> j \<le> length b \<and> length b = length buf"
        and "data_body s = Some (Next s')"
      then show "(case s' of (b, j, c) \<Rightarrow> j \<le> length b \<and> length b = length buf) \<and>
          (case s' of (b, j, c) \<Rightarrow> length b - j) < (case s of (b, j, c) \<Rightarrow> length b - j)"
        by (rule walk_inv_data)
    next
      fix s s' :: walk_vars
      assume I: "case s of (b, j, c) \<Rightarrow> j \<le> length b \<and> length b = length buf"
        and b: "data_body s = Some (Next s')"
      obtain sb sj sc where s: "s = (sb, sj, sc)" by (metis prod_cases3)
      from I s have "sj \<le> length sb" and len: "length sb = length buf" by simp_all
      from data_body_slot [OF b [unfolded s] this(1), of i] len s
      show "(case s' of (b, j, c) \<Rightarrow> players c i) =
          last ((case s of (b, j, c) \<Rightarrow> players c i) # ?w s)"
        by (cases s') simp
    next
      fix s r :: walk_vars
      assume I: "case s of (b, j, c) \<Rightarrow> j \<le> length b \<and> length b = length buf"
        and b: "data_body s = Some (Return r)"
      obtain sb sj sc where s: "s = (sb, sj, sc)" by (metis prod_cases3)
      from I s have "sj \<le> length sb" and len: "length sb = length buf" by simp_all
      from data_body_slot [OF b [unfolded s] this(1), of i] len s
      show "(case r of (b, j, c') \<Rightarrow> players c' i) =
          last ((case s of (b, j, c) \<Rightarrow> players c i) # ?w s)"
        by (cases r) simp
    qed
    with jn True show ?thesis by (simp add: data_heads_def)
  qed
qed

lemma chunk_body_slot:
  assumes "chunk_body (b, j, c) = Some x" and "j \<le> length b"
  shows "case x of
      Return (r, b', c') \<Rightarrow> players c' i = last (players c i #
        concat (map (\<lambda>s. concat (map (commit_at i)
            (concat (map (player_heads (length b)) (player_calls_at s)))))
          (concat (map (data_heads (length b)) (data_calls_at (b, j, c))))))
    | Next (b', j', c') \<Rightarrow> players c' i = last (players c i #
        concat (map (\<lambda>s. concat (map (commit_at i)
            (concat (map (player_heads (length b)) (player_calls_at s)))))
          (concat (map (data_heads (length b)) (data_calls_at (b, j, c))))))"
proof -
  obtain k b1 j1 where pk: "parse_key b j = (k, b1, j1)" by (metis prod_cases3)
  from parse_key_moves [OF pk assms(2)] have le1: "j1 \<le> length b1" and len1: "length b1 = length b"
    by (simp_all add: moves_def)
  from assms pk obtain y where cf: "chunk_field k (b1, j1, c) = Some y"
    by (auto simp: chunk_body_def split: option.splits)
  let ?w = "concat (map (\<lambda>s. concat (map (commit_at i)
            (concat (map (player_heads (length b)) (player_calls_at s)))))
          (concat (map (data_heads (length b)) (data_calls_at (b, j, c)))))"
  have y: "case y of Return (b', c') \<Rightarrow> players c' i = last (players c i # ?w)
         | Next (b', j', c') \<Rightarrow> players c' i = last (players c i # ?w)"
  proof -
    consider (t) "k = SYM_t" | (d) "k = SYM_d" "k \<noteq> SYM_t" | (other) "k \<noteq> SYM_t" "k \<noteq> SYM_d"
      by blast
    then show ?thesis
    proof cases
      case t
      with cf pk show ?thesis
        by (auto simp: chunk_field_def data_calls_at_def split: prod.splits if_splits)
    next
      case d
      with cf obtain b2 j2 c2 where pd: "parse_data b1 j1 c = Some (b2, j2, c2)"
        and y: "y = Next (b2, j2, c2)"
        by (auto simp: chunk_field_def split: option.splits)
      from parse_data_slot [OF pd le1, of i] y d pk len1 show ?thesis
        by (simp add: data_calls_at_def)
    next
      case other
      with cf pk show ?thesis
        by (auto simp: chunk_field_def data_calls_at_def split: prod.splits)
    qed
  qed
  from y assms pk cf show ?thesis
    by (auto simp: chunk_body_def split: ctl.splits prod.splits if_splits)
qed

lemma chunk_parse_slot:
  assumes "chunk_parse buf c = Some (r, b, c')"
  shows "players c' i = last (players c i # slot_writes i (length buf) buf c)"
proof -
  obtain t b0 j0 where jn: "json_next buf 0 = (t, b0, j0)" by (metis prod_cases3)
  show ?thesis
  proof (cases "tok_type t = JSON_OBEG")
    case False
    with assms jn show ?thesis
      by (simp add: chunk_parse_def slot_writes_def run_player_heads_def run_player_calls_def
          run_data_heads_def chunk_heads_def)
  next
    case True
    with assms jn have it: "iterate chunk_body (b0, j0, c) = Some (r, b, c')"
      by (simp add: chunk_parse_def)
    let ?w = "\<lambda>h. concat (map (\<lambda>s. concat (map (commit_at i)
            (concat (map (player_heads (length buf)) (player_calls_at s)))))
          (concat (map (data_heads (length buf)) (data_calls_at h))))"
    from json_next_moves [OF jn] have m0: "moves buf 0 b0 j0" by simp
    then have I0: "case (b0, j0, c) of (b, j, c) \<Rightarrow> j \<le> length b \<and> length b = length buf"
      and n0: "(case (b0, j0, c) of (b, j, c) \<Rightarrow> length b - j) \<le> length buf"
      by (simp_all add: moves_def)
    have "(case (r, b, c') of (r, b, c') \<Rightarrow> players c' i) =
        last ((case (b0, j0, c) of (b, j, c) \<Rightarrow> players c i) #
          concat (map ?w (iter_heads (length buf) chunk_body (b0, j0, c))))"
    proof (rule iterate_log [OF it, where I = "\<lambda>(b, j, c). j \<le> length b \<and> length b = length buf"
          and m = "\<lambda>(b, j, c). length b - j"])
      show "case (b0, j0, c) of (b, j, c) \<Rightarrow> j \<le> length b \<and> length b = length buf" by (rule I0)
      show "(case (b0, j0, c) of (b, j, c) \<Rightarrow> length b - j) \<le> length buf" by (rule n0)
    next
      fix s s' :: walk_vars
      assume "case s of (b, j, c) \<Rightarrow> j \<le> length b \<and> length b = length buf"
        and "chunk_body s = Some (Next s')"
      then show "(case s' of (b, j, c) \<Rightarrow> j \<le> length b \<and> length b = length buf) \<and>
          (case s' of (b, j, c) \<Rightarrow> length b - j) < (case s of (b, j, c) \<Rightarrow> length b - j)"
        by (rule walk_inv_chunk)
    next
      fix s s' :: walk_vars
      assume I: "case s of (b, j, c) \<Rightarrow> j \<le> length b \<and> length b = length buf"
        and b: "chunk_body s = Some (Next s')"
      obtain sb sj sc where s: "s = (sb, sj, sc)" by (metis prod_cases3)
      from I s have "sj \<le> length sb" and len: "length sb = length buf" by simp_all
      from chunk_body_slot [OF b [unfolded s] this(1), of i] len s
      show "(case s' of (b, j, c) \<Rightarrow> players c i) =
          last ((case s of (b, j, c) \<Rightarrow> players c i) # ?w s)"
        by (cases s') simp
    next
      fix s :: walk_vars and r :: "int \<times> buffer \<times> chunk"
      assume I: "case s of (b, j, c) \<Rightarrow> j \<le> length b \<and> length b = length buf"
        and b: "chunk_body s = Some (Return r)"
      obtain sb sj sc where s: "s = (sb, sj, sc)" by (metis prod_cases3)
      from I s have "sj \<le> length sb" and len: "length sb = length buf" by simp_all
      from chunk_body_slot [OF b [unfolded s] this(1), of i] len s
      show "(case r of (r, b, c') \<Rightarrow> players c' i) =
          last ((case s of (b, j, c) \<Rightarrow> players c i) # ?w s)"
        by (cases r) simp
    qed
    moreover have "concat (map ?w (iter_heads (length buf) chunk_body (b0, j0, c))) =
        slot_writes i (length buf) buf c"
      using jn True
      by (simp add: slot_writes_def run_player_heads_def run_player_calls_def run_data_heads_def
          chunk_heads_def concat_map_concat comp_def)
    ultimately show ?thesis by simp
  qed
qed

lemma kind_write_at_valid: "CHUNK_UNKNOWN \<notin> set (kind_write_at h)"
proof -
  obtain b j c where h: "h = (b, j, c)" by (metis prod_cases3)
  obtain k b1 j1 where pk: "parse_key b j = (k, b1, j1)" by (metis prod_cases3)
  obtain e b2 j2 where pe: "parse_enum b1 j1 = (e, b2, j2)" by (metis prod_cases3)
  have "kind_write_at h = (if k = SYM_t then (if e = SYM_featured then [CHUNK_FEATURED]
             else if e = SYM_fen then [CHUNK_FEN] else []) else [])"
    unfolding kind_write_at_def h by (simp add: pk pe)
  then show ?thesis by simp
qed

lemma kind_writes_valid: "CHUNK_UNKNOWN \<notin> set (kind_writes n buf c)"
  by (simp add: kind_writes_def kind_write_at_valid)


lemma partial_record_writes:
  "kind_writes 73 ''{\"t\":\"featured\",\"d\":{\"fen\":\"x\",\"players\":[{\"color\":\"black\",\"rating\":1}]}}'' zero_chunk = [CHUNK_FEATURED]"
  "fen_writes 73 ''{\"t\":\"featured\",\"d\":{\"fen\":\"x\",\"players\":[{\"color\":\"black\",\"rating\":1}]}}'' zero_chunk = [Some 28]"
  "slot_writes 0 73 ''{\"t\":\"featured\",\"d\":{\"fen\":\"x\",\"players\":[{\"color\":\"black\",\"rating\":1}]}}'' zero_chunk = [\<lparr>name = None, rating = Some 68\<rparr>]"
  "slot_writes 1 73 ''{\"t\":\"featured\",\"d\":{\"fen\":\"x\",\"players\":[{\"color\":\"black\",\"rating\":1}]}}'' zero_chunk = []"
  by code_simp+

lemma kind_write_at_key: "key_at h \<noteq> SYM_t \<Longrightarrow> kind_write_at h = []"
  by (cases h) (auto simp: key_at_def kind_write_at_def split: prod.splits)

lemma fen_write_at_key: "key_at h \<noteq> SYM_fen \<Longrightarrow> fen_write_at h = []"
  by (cases h) (auto simp: key_at_def fen_write_at_def split: prod.splits)

lemma player_calls_at_key: "key_at h \<noteq> SYM_players \<Longrightarrow> player_calls_at h = []"
  by (cases h) (auto simp: key_at_def player_calls_at_def split: prod.splits)

lemma no_kind_writes:
  assumes "SYM_t \<notin> set (chunk_keys n buf c)"
  shows "kind_writes n buf c = []"
proof -
  have "key_at h \<noteq> SYM_t" if "h \<in> set (chunk_heads n buf c)" for h
  proof -
    from that have "key_at h \<in> set (chunk_keys n buf c)" by (simp add: chunk_keys_def)
    with assms show ?thesis by metis
  qed
  then show ?thesis by (simp add: chunk_keys_def kind_writes_def kind_write_at_key)
qed

lemma no_fen_writes:
  assumes "SYM_fen \<notin> set (data_keys n buf c)"
  shows "fen_writes n buf c = []"
proof -
  have "key_at h \<noteq> SYM_fen" if "h \<in> set (run_data_heads n buf c)" for h
  proof -
    from that have "key_at h \<in> set (data_keys n buf c)" by (simp add: data_keys_def)
    with assms show ?thesis by metis
  qed
  then show ?thesis by (simp add: data_keys_def fen_writes_def fen_write_at_key)
qed

lemma no_player_calls:
  assumes "SYM_players \<notin> set (data_keys n buf c)"
  shows "run_player_calls n buf c = []"
proof -
  have "key_at h \<noteq> SYM_players" if "h \<in> set (run_data_heads n buf c)" for h
  proof -
    from that have "key_at h \<in> set (data_keys n buf c)" by (simp add: data_keys_def)
    with assms show ?thesis by metis
  qed
  then show ?thesis by (simp add: data_keys_def run_player_calls_def player_calls_at_key)
qed

lemma no_slot_writes:
  assumes "SYM_players \<notin> set (data_keys n buf c)"
  shows "slot_writes i n buf c = []"
  using no_player_calls [OF assms] by (simp add: slot_writes_def run_player_heads_def)

lemma kind_unknown_kept:
  assumes "last (k # ws) = CHUNK_UNKNOWN" and "CHUNK_UNKNOWN \<notin> set ws"
  shows "k = CHUNK_UNKNOWN \<and> ws = []"
proof (cases "ws = []")
  case True
  with assms show ?thesis by simp
next
  case False
  then have "last (k # ws) \<in> set ws" by simp
  with assms show ?thesis by simp
qed

text \<open>
  Claim C10. No pass assigns \<open>CHUNK_UNKNOWN\<close>: a record whose kind is \<open>CHUNK_UNKNOWN\<close> after
  the call had it before, and no kind was assigned. Nothing initialises the record: when no
  pass of the loop of \<open>chunk_parse\<close> parses the key \<^verbatim>\<open>t\<close>, \<open>type\<close> is what the caller passed; when
  no pass of a loop of \<open>parse_data\<close> parses the key \<^verbatim>\<open>fen\<close>, \<open>fen\<close> is what the caller passed;
  when none parses the key \<^verbatim>\<open>players\<close>, the whole array is what the caller passed; and a
  slot that no pass of a loop of \<open>parse_player\<close> commits is what the caller passed. This
  holds whatever \<open>chunk_parse\<close> returns.
\<close>

theorem chunk_parse_keeps_absent_fields:
  "chunk_parse buf c = Some (r, b, c') \<longrightarrow>
     CHUNK_UNKNOWN \<notin> set (kind_writes (length buf) buf c) \<and>
     (type c' = CHUNK_UNKNOWN \<longrightarrow>
        type c = CHUNK_UNKNOWN \<and> kind_writes (length buf) buf c = []) \<and>
     (SYM_t \<notin> set (chunk_keys (length buf) buf c) \<longrightarrow> type c' = type c) \<and>
     (SYM_fen \<notin> set (data_keys (length buf) buf c) \<longrightarrow> fen c' = fen c) \<and>
     (SYM_players \<notin> set (data_keys (length buf) buf c) \<longrightarrow> players c' = players c) \<and>
     (\<forall>i. slot_writes i (length buf) buf c = [] \<longrightarrow> players c' i = players c i)"
proof
  assume cp: "chunk_parse buf c = Some (r, b, c')"
  note k = chunk_parse_kind [OF cp] and f = chunk_parse_fen [OF cp]
    and s = chunk_parse_slot [OF cp]
  note v = kind_writes_valid [of "length buf" buf c]
  show "CHUNK_UNKNOWN \<notin> set (kind_writes (length buf) buf c) \<and>
     (type c' = CHUNK_UNKNOWN \<longrightarrow>
        type c = CHUNK_UNKNOWN \<and> kind_writes (length buf) buf c = []) \<and>
     (SYM_t \<notin> set (chunk_keys (length buf) buf c) \<longrightarrow> type c' = type c) \<and>
     (SYM_fen \<notin> set (data_keys (length buf) buf c) \<longrightarrow> fen c' = fen c) \<and>
     (SYM_players \<notin> set (data_keys (length buf) buf c) \<longrightarrow> players c' = players c) \<and>
     (\<forall>i. slot_writes i (length buf) buf c = [] \<longrightarrow> players c' i = players c i)"
  proof (intro conjI impI allI)
    show "CHUNK_UNKNOWN \<notin> set (kind_writes (length buf) buf c)" by (rule v)
  next
    assume u: "type c' = CHUNK_UNKNOWN"
    from k u have "last (type c # kind_writes (length buf) buf c) = CHUNK_UNKNOWN"
      by (simp only:)
    from kind_unknown_kept [OF this v]
    show "type c = CHUNK_UNKNOWN" and "kind_writes (length buf) buf c = []" by simp_all
  next
    assume "SYM_t \<notin> set (chunk_keys (length buf) buf c)"
    from no_kind_writes [OF this] k show "type c' = type c" by simp
  next
    assume "SYM_fen \<notin> set (data_keys (length buf) buf c)"
    from no_fen_writes [OF this] f show "fen c' = fen c" by simp
  next
    assume a: "SYM_players \<notin> set (data_keys (length buf) buf c)"
    show "players c' = players c"
    proof
      fix i
      from s [of i] no_slot_writes [OF a, of i] show "players c' i = players c i" by simp
    qed
  next
    fix i
    assume "slot_writes i (length buf) buf c = []"
    with s [of i] show "players c' i = players c i" by simp
  qed
qed

lemma only_id_eval:
  "P (Some (1, only_id[4 := CHR 0x00, 8 := CHR 0x00], \<lparr>fen = f0, players = p0, type = t0\<rparr>)) \<Longrightarrow>
   P (chunk_parse only_id \<lparr>fen = f0, players = p0, type = t0\<rparr>)"
  apply code_simp
  apply (simp cong: if_cong)
  done

lemma only_id_result: "chunk_parse only_id c = Some (1, only_id[4 := CHR 0x00, 8 := CHR 0x00], c)"
proof -
  have "chunk_parse only_id \<lparr>fen = fen c, players = players c, type = type c\<rparr> =
     Some (1, only_id[4 := CHR 0x00, 8 := CHR 0x00], \<lparr>fen = fen c, players = players c, type = type c\<rparr>)"
    by (rule only_id_eval) (rule refl)
  then show ?thesis by (cases c) simp
qed

lemma only_id_keys:
  "length only_id = 10"
  "SYM_t \<notin> set (chunk_keys 10 only_id used_chunk)"
  "SYM_fen \<notin> set (data_keys 10 only_id used_chunk)"
  "kind_writes 10 only_id zero_chunk = []"
  by code_simp+

lemma scenario_B_keys:
  "length scenario_B = 41"
  "SYM_players \<notin> set (data_keys 41 scenario_B used_chunk)"
  "slot_writes 0 41 scenario_B used_chunk = []"
  by code_simp+

theorem chunk_parse_keeps_absent_fields_witness:
  "chunk_parse only_id used_chunk = Some (1, only_id[4 := CHR 0x00, 8 := CHR 0x00], used_chunk) \<and>
   SYM_t \<notin> set (chunk_keys (length only_id) only_id used_chunk) \<and>
   SYM_fen \<notin> set (data_keys (length only_id) only_id used_chunk) \<and>
   type used_chunk = CHUNK_FEATURED \<and> fen used_chunk = Some 28 \<and>
   chunk_parse only_id zero_chunk = Some (1, only_id[4 := CHR 0x00, 8 := CHR 0x00], zero_chunk) \<and>
   type zero_chunk = CHUNK_UNKNOWN \<and> kind_writes (length only_id) only_id zero_chunk = [] \<and>
   chunk_parse scenario_B used_chunk =
     Some (1, scenario_B[3 := CHR 0x00, 9 := CHR 0x00, 13 := CHR 0x00, 20 := CHR 0x00, 38 := CHR 0x00], used_chunk\<lparr>fen := Some 23, type := CHUNK_FEN\<rparr>) \<and>
   SYM_players \<notin> set (data_keys (length scenario_B) scenario_B used_chunk) \<and>
   slot_writes 0 (length scenario_B) scenario_B used_chunk = [] \<and>
   players (used_chunk\<lparr>fen := Some 23, type := CHUNK_FEN\<rparr>) = players used_chunk \<and>
   players (used_chunk\<lparr>fen := Some 23, type := CHUNK_FEN\<rparr>) 0 =
     \<lparr>name = Some 100, rating = Some 79\<rparr>"
proof -
  note a = chunk_parse_keeps_absent_fields [THEN mp, OF only_id_result [of used_chunk]]
  note z = chunk_parse_keeps_absent_fields [THEN mp, OF only_id_result [of zero_chunk]]
  note s = chunk_parse_keeps_absent_fields [THEN mp, OF scenario_B_result [of used_chunk]]
  have tz: "type zero_chunk = CHUNK_UNKNOWN" by (simp add: zero_chunk_def)
  from a only_id_keys have 1: "type used_chunk = type used_chunk" "fen used_chunk = fen used_chunk"
    by simp_all
  from z tz have 2: "kind_writes (length only_id) only_id zero_chunk = []" by blast
  from s scenario_B_keys
  have 3: "players (used_chunk\<lparr>fen := Some 23, type := CHUNK_FEN\<rparr>) = players used_chunk"
    by simp
  from s scenario_B_keys
  have 4: "players (used_chunk\<lparr>fen := Some 23, type := CHUNK_FEN\<rparr>) 0 = players used_chunk 0"
    by simp
  have 5: "type used_chunk = CHUNK_FEATURED" "fen used_chunk = Some 28"
    "players used_chunk 0 = \<lparr>name = Some 100, rating = Some 79\<rparr>"
    by (simp_all add: used_chunk_def)
  from only_id_result [of used_chunk] only_id_result [of zero_chunk]
    scenario_B_result [of used_chunk] only_id_keys scenario_B_keys tz 2 3 4 5
  show ?thesis by simp
qed

end
